theory Spec2Isabelle
  imports Complex_Main
begin

section \<open>Python values: exceptions, dictionaries, strings\<close>

text \<open>
  The exceptions the modelled functions can raise. A function that may raise returns
  \<open>exn + 'a\<close>, with \<open>Inl\<close> for the exception.
\<close>

datatype exn =
    TypeError
  | KeyError
  | AttributeError
  | ValueError string
  | OtherError string

text \<open>
  A Python \<open>dict\<close> keeps its keys in the order of their first insertion; assigning to a
  key that is already present overwrites the value and leaves the position alone.
\<close>

type_synonym ('k, 'v) dict = "('k \<times> 'v) list"

fun dict_set :: "('k, 'v) dict \<Rightarrow> 'k \<Rightarrow> 'v \<Rightarrow> ('k, 'v) dict" where
  "dict_set [] k v = [(k, v)]"
| "dict_set ((k', v') # d) k v =
     (if k' = k then (k, v) # d else (k', v') # dict_set d k v)"

definition dict_get :: "('k, 'v) dict \<Rightarrow> 'k \<Rightarrow> 'v option" where
  "dict_get d k = map_of d k"

definition keys :: "('k, 'v) dict \<Rightarrow> 'k list" where
  "keys d = map fst d"

text \<open>
  Strings are lists of characters. The character classes are those of the regular
  expressions in \<open>to_snake_case\<close>: \<open>[A-Z]\<close>, \<open>[a-z]\<close>, \<open>[0-9]\<close>.
\<close>

definition ascii_uppercase :: string where
  "ascii_uppercase = ''ABCDEFGHIJKLMNOPQRSTUVWXYZ''"

definition ascii_lowercase :: string where
  "ascii_lowercase = ''abcdefghijklmnopqrstuvwxyz''"

definition digits :: string where
  "digits = ''0123456789''"

definition is_upper :: "char \<Rightarrow> bool" where
  "is_upper c \<longleftrightarrow> c \<in> set ascii_uppercase"

definition is_lower :: "char \<Rightarrow> bool" where
  "is_lower c \<longleftrightarrow> c \<in> set ascii_lowercase"

definition is_digit :: "char \<Rightarrow> bool" where
  "is_digit c \<longleftrightarrow> c \<in> set digits"

definition is_alnum :: "char \<Rightarrow> bool" where
  "is_alnum c \<longleftrightarrow> is_lower c \<or> is_upper c \<or> is_digit c"

text \<open>
  \<open>str.lower\<close>, on the letters \<open>A\<close> to \<open>Z\<close>. Both places that call it compare or
  produce ASCII text only: \<open>to_snake_case\<close> lowers a string of ASCII letters, digits and
  underscores, and \<open>normalize_lead_sources\<close> compares the lowered header with ASCII names.
\<close>

definition to_lower :: "char \<Rightarrow> char" where
  "to_lower c =
     (case map_of (zip ascii_uppercase ascii_lowercase) c of Some l \<Rightarrow> l | None \<Rightarrow> c)"

definition lower :: "string \<Rightarrow> string" where
  "lower s = map to_lower s"

text \<open>\<open>s.strip(chars)\<close>: drop the characters of \<open>chars\<close> from both ends.\<close>

definition strip_chars :: "string \<Rightarrow> string \<Rightarrow> string" where
  "strip_chars chars s =
     rev (dropWhile (\<lambda>c. c \<in> set chars) (rev (dropWhile (\<lambda>c. c \<in> set chars) s)))"

text \<open>\<open>s.replace(" ", "_")\<close>.\<close>

definition replace_space :: "string \<Rightarrow> string" where
  "replace_space s = map (\<lambda>c. if c = CHR '' '' then CHR ''_'' else c) s"

text \<open>The characters \<open>str.strip()\<close> removes when it is called without an argument.\<close>

definition whitespace :: string where
  "whitespace =
     [CHR 0x09, CHR 0x0A, CHR 0x0B, CHR 0x0C, CHR 0x0D, CHR 0x1C, CHR 0x1D, CHR 0x1E,
      CHR 0x1F, CHR '' '', CHR 0x85, CHR 0xA0]"

section \<open>schema\_config.py\<close>

record canonical_entry =
  name :: string
  aliases :: "string list"

definition EXPECTED_COLUMNS :: "canonical_entry list" where
  "EXPECTED_COLUMNS =
     [\<lparr>name = ''SoldDate'', aliases = [''sale_date'', ''date_sold'', ''sold_on'', ''dateofsale'']\<rparr>,
      \<lparr>name = ''CustomerName'',
        aliases = [''customer'', ''client_name'', ''buyer_name'', ''purchaser'']\<rparr>,
      \<lparr>name = ''SellingPrice'',
        aliases = [''price'', ''amount_sold'', ''sale_price'', ''final_price'']\<rparr>]"

definition LEAD_SOURCES :: "canonical_entry list" where
  "LEAD_SOURCES =
     [\<lparr>name = ''NeoIdentity'',
        aliases = [''Neo Ident.'', ''NeoIdent.'', ''Neo Ident'', ''NeoIdentity'', ''Neo Identified'']\<rparr>,
      \<lparr>name = ''AutoTrader'',
        aliases = [''Auto Trader'', ''Autotrader'', ''AutoTrader.com'', ''AT'']\<rparr>,
      \<lparr>name = ''CarGurus'', aliases = [''Car Gurus'', ''Cargurus.com'', ''CarGurus'']\<rparr>,
      \<lparr>name = ''Facebook'', aliases = [''FB'', ''Facebook Marketplace'', ''Facebook'']\<rparr>,
      \<lparr>name = ''WalkIn'', aliases = [''Walk In'', ''Walk-In'', ''WalkIn'']\<rparr>]"

section \<open>column\_matcher.py\<close>

text \<open>
  The module wraps two scorers of the \<open>rapidfuzz\<close> library, which is not part of the
  repository. The library's \<open>fuzz\<close> module is a parameter of the model: a record of the
  two scorers used, each giving a score for a pair of strings.
\<close>

type_synonym scorer = "string \<Rightarrow> string \<Rightarrow> real"

record fuzz =
  fuzz_token_sort_ratio :: scorer
  fuzz_WRatio :: scorer

definition token_ratio :: "fuzz \<Rightarrow> scorer" where
  "token_ratio fz a b = fuzz_token_sort_ratio fz a b"

definition WRatio :: "fuzz \<Rightarrow> scorer" where
  "WRatio fz a b = fuzz_WRatio fz a b"

text \<open>
  Modelled from the spec: \<open>process.extractOne\<close> of rapidfuzz is library code that is not
  under src/. Following section 4.1, it scans the candidates in order and returns the
  best-scoring one with its score and its index, the first candidate met at the maximum
  score winning a tie; for an empty candidate list there is no best candidate and the
  result is \<open>None\<close>.
\<close>

fun extract_loop ::
  "string \<Rightarrow> scorer \<Rightarrow> (string \<times> real \<times> nat) option \<Rightarrow> nat \<Rightarrow> string list
     \<Rightarrow> (string \<times> real \<times> nat) option" where
  "extract_loop query sc best i [] = best"
| "extract_loop query sc best i (c # cs) =
     extract_loop query sc
       (case best of
          None \<Rightarrow> Some (c, sc query c, i)
        | Some (bc, bs, bi) \<Rightarrow> if sc query c > bs then Some (c, sc query c, i) else best)
       (Suc i) cs"

definition extractOne :: "string \<Rightarrow> string list \<Rightarrow> scorer \<Rightarrow> (string \<times> real \<times> nat) option" where
  "extractOne query choices sc = extract_loop query sc None 0 choices"

text \<open>
  \<open>match, score, _ = process.extractOne(query, choices, scorer=scorer)\<close>: unpacking
  \<open>None\<close> raises \<open>TypeError\<close>. The scorer is passed by every caller; the default of the
  source is \<open>fuzz.WRatio\<close>.
\<close>

definition best_match_score :: "string \<Rightarrow> string list \<Rightarrow> scorer \<Rightarrow> exn + (string \<times> real)" where
  "best_match_score query choices sc =
     (case extractOne query choices sc of
        None \<Rightarrow> Inl TypeError
      | Some (m, s, _) \<Rightarrow> Inr (m, s))"

section \<open>Tabular data\<close>

text \<open>
  A scalar of a column: a null marker (\<open>None\<close>, \<open>NaN\<close>), a string, or a number, the
  non-string scalars of the tables. A column is a pandas \<open>Series\<close>, its dtype and its
  values; a \<open>DataFrame\<close> is the ordered list of its named columns, all of one length.
\<close>

datatype cell = Null | Str string | Num int

text \<open>
  The dtypes: \<open>object\<close>; the integer dtypes \<open>int64\<close> of numpy, \<open>int64[pyarrow]\<close> (the
  loader reads with the pyarrow backend) and the nullable \<open>Int64\<close>; \<open>float64\<close>;
  \<open>datetime64\<close>.
\<close>

datatype dtype =
  Object_dtype | Int64_numpy | Int64_pyarrow | Int64_nullable | Float64 | Datetime64

record series =
  dtype :: dtype
  vals :: "cell list"

type_synonym frame = "(string \<times> series) list"

definition columns :: "frame \<Rightarrow> string list" where
  "columns df = map fst df"

text \<open>\<open>df.empty\<close>: an axis of length 0, that is no column or no row.\<close>

definition df_empty :: "frame \<Rightarrow> bool" where
  "df_empty df = (case df of [] \<Rightarrow> True | (_, s) # _ \<Rightarrow> vals s = [])"

text \<open>
  \<open>df[col]\<close> is the column when exactly one column has that name. The list returned
  here has the columns of that name: none raises \<open>KeyError\<close> in pandas, and two or more
  give a \<open>DataFrame\<close>, on which the uses below (\<open>.dtype\<close>, \<open>.str\<close>) raise.
\<close>

definition getitem :: "frame \<Rightarrow> string \<Rightarrow> series list" where
  "getitem df col = map snd (filter (\<lambda>(n, s). n = col) df)"

text \<open>\<open>df[col] = s\<close>: replaces the column in place, or appends a new one.\<close>

definition setitem :: "frame \<Rightarrow> string \<Rightarrow> series \<Rightarrow> frame" where
  "setitem df col s =
     (if col \<in> set (columns df) then map (\<lambda>(n, old). if n = col then (n, s) else (n, old)) df
      else df @ [(col, s)])"

text \<open>\<open>df.columns = names\<close>.\<close>

definition set_columns :: "frame \<Rightarrow> string list \<Rightarrow> frame" where
  "set_columns df names = zip names (map snd df)"

text \<open>
  The pandas conversions whose outcome depends on the library and its version are
  parameters of the model: \<open>Series.astype('Int64')\<close>, \<open>Series.astype('float64')\<close>,
  \<open>Series.str.strip()\<close> and \<open>DataFrame.fillna(value)\<close>, which returns a new frame. Each
  may raise.
\<close>

record pandas =
  astype_Int64 :: "series \<Rightarrow> exn + series"
  astype_float64 :: "series \<Rightarrow> exn + series"
  str_strip :: "series \<Rightarrow> exn + series"
  fillna :: "string \<Rightarrow> frame \<Rightarrow> exn + frame"

definition is_integer_dtype :: "dtype \<Rightarrow> bool" where
  "is_integer_dtype d \<longleftrightarrow> d = Int64_numpy \<or> d = Int64_pyarrow \<or> d = Int64_nullable"

text \<open>\<open>s.isnull().any()\<close>.\<close>

definition isnull_any :: "series \<Rightarrow> bool" where
  "isnull_any s \<longleftrightarrow> Null \<in> set (vals s)"

text \<open>
  Objects are referred to by their place in a store, so that a function that changes an
  object in place is told apart from one that builds a new object: \<open>alloc\<close> adds an
  object and returns its reference.
\<close>

type_synonym store = "frame list"

definition alloc :: "store \<Rightarrow> frame \<Rightarrow> store \<times> nat" where
  "alloc st f = (st @ [f], length st)"

section \<open>data\_loader.py\<close>

text \<open>
  The alias-to-canonical dictionary, built by the same loop in \<open>load_csv_file\<close> (over
  \<open>EXPECTED_COLUMNS\<close>) and in \<open>normalize_lead_sources\<close> (over \<open>LEAD_SOURCES\<close>): for each
  entry, every alias is assigned the entry's name, then the name is assigned itself.
\<close>

definition add_entry :: "(string, string) dict \<Rightarrow> canonical_entry \<Rightarrow> (string, string) dict" where
  "add_entry d e =
     dict_set (foldl (\<lambda>d' alias. dict_set d' alias (name e)) d (aliases e)) (name e) (name e)"

definition build_alias_to_canonical :: "canonical_entry list \<Rightarrow> (string, string) dict" where
  "build_alias_to_canonical cfg = foldl add_entry [] cfg"

record column_mapping =
  original_column :: string
  mapped_to :: string
  score :: real

text \<open>
  The body of the loop over \<open>df_sample.columns\<close>: the record appended to
  \<open>mapping_meta\<close> for one column; its \<open>mapped_to\<close> is also the value stored in
  \<open>mapping\<close>. The scorer passed is \<open>token_ratio\<close>.
\<close>

definition map_column :: "fuzz \<Rightarrow> (string, string) dict \<Rightarrow> string \<Rightarrow> exn + column_mapping" where
  "map_column fz alias_to_canonical user_col =
     (let candidates = keys alias_to_canonical in
      case best_match_score user_col candidates (token_ratio fz) of
        Inl e \<Rightarrow> Inl e
      | Inr (match, s) \<Rightarrow>
          if s \<ge> 85 then
            (case dict_get alias_to_canonical match of
               None \<Rightarrow> Inl KeyError
             | Some canonical \<Rightarrow>
                 Inr \<lparr>original_column = user_col, mapped_to = canonical, score = s\<rparr>)
          else Inr \<lparr>original_column = user_col, mapped_to = user_col, score = s\<rparr>)"

fun mapping_loop ::
  "fuzz \<Rightarrow> (string, string) dict \<Rightarrow> string list
     \<Rightarrow> (string, string) dict \<times> column_mapping list
     \<Rightarrow> exn + ((string, string) dict \<times> column_mapping list)" where
  "mapping_loop fz a2c [] st = Inr st"
| "mapping_loop fz a2c (user_col # cols) (mapping, mapping_meta) =
     (case map_column fz a2c user_col of
        Inl e \<Rightarrow> Inl e
      | Inr r \<Rightarrow>
          mapping_loop fz a2c cols
            (dict_set mapping user_col (mapped_to r), mapping_meta @ [r]))"

definition fuzzy_column_mapping ::
  "fuzz \<Rightarrow> canonical_entry list \<Rightarrow> string list
     \<Rightarrow> exn + ((string, string) dict \<times> column_mapping list)" where
  "fuzzy_column_mapping fz cfg cols = mapping_loop fz (build_alias_to_canonical cfg) cols ([], [])"

text \<open>
  The body of the loop that promotes integer columns holding nulls. The \<open>elif\<close> branch
  of the source only logs.
\<close>

definition promote_column :: "pandas \<Rightarrow> frame \<Rightarrow> string \<Rightarrow> exn + frame" where
  "promote_column pd df col =
     (case getitem df col of
        [] \<Rightarrow> Inl KeyError
      | [s] \<Rightarrow>
          if is_integer_dtype (dtype s) \<and> isnull_any s then
            (case astype_Int64 pd s of
               Inr s' \<Rightarrow> Inr (setitem df col s')
             | Inl e \<Rightarrow>
                 (case astype_float64 pd s of
                    Inr s'' \<Rightarrow> Inr (setitem df col s'')
                  | Inl e' \<Rightarrow> Inl e'))
          else Inr df
      | _ # _ # _ \<Rightarrow> Inl AttributeError)"

fun promote_loop :: "pandas \<Rightarrow> string list \<Rightarrow> frame \<Rightarrow> exn + frame" where
  "promote_loop pd [] df = Inr df"
| "promote_loop pd (col # cols) df =
     (case promote_column pd df col of
        Inl e \<Rightarrow> Inl e
      | Inr df' \<Rightarrow> promote_loop pd cols df')"

definition basic_validation :: "frame \<Rightarrow> exn + unit" where
  "basic_validation df =
     (if df_empty df then Inl (ValueError ''The CSV file is empty'')
      else if length (columns df) < 2
        then Inl (ValueError ''The CSV file must have at least two columns'')
      else Inr ())"

text \<open>
  What \<open>load_csv_file\<close> gets from outside the modelled code: the column names of the
  five-row sample read, and the table of the full read (after the type analysis of the
  columns), each possibly an exception. The handlers at the end of the function re-raise,
  a parser error as a \<open>ValueError\<close>.
\<close>

record csv_reads =
  sample_columns :: "exn + string list"
  full_read :: "exn + frame"

definition load_csv_file ::
  "fuzz \<Rightarrow> pandas \<Rightarrow> csv_reads
     \<Rightarrow> exn + (frame \<times> (string, string) dict \<times> column_mapping list)" where
  "load_csv_file fz pd rd =
     (case sample_columns rd of
        Inl e \<Rightarrow> Inl e
      | Inr cols \<Rightarrow>
          (case fuzzy_column_mapping fz EXPECTED_COLUMNS cols of
             Inl e \<Rightarrow> Inl e
           | Inr (mapping, mapping_meta) \<Rightarrow>
               (case full_read rd of
                  Inl e \<Rightarrow> Inl e
                | Inr df \<Rightarrow>
                    (case promote_loop pd (columns df) df of
                       Inl e \<Rightarrow> Inl e
                     | Inr df' \<Rightarrow>
                         (case basic_validation df' of
                            Inl e \<Rightarrow> Inl e
                          | Inr _ \<Rightarrow> Inr (df', mapping, mapping_meta))))))"

section \<open>data\_cleaner.py\<close>

subsection \<open>to\_snake\_case\<close>

text \<open>
  \<open>re.sub('(.)([A-Z][a-z]+)', r'\1_\2', s)\<close>: scanning from the left, a character other
  than a newline that is followed by a capital and at least one small letter gets an
  underscore after it; the match takes the whole run of small letters and the scan goes on
  behind it.
\<close>

function sub_word_boundary :: "string \<Rightarrow> string" where
  "sub_word_boundary [] = []"
| "sub_word_boundary [c] = [c]"
| "sub_word_boundary [c, u] = [c, u]"
| "sub_word_boundary (c # u # l # rest) =
     (if c \<noteq> CHR 0x0A \<and> is_upper u \<and> is_lower l
      then c # CHR ''_'' # u # takeWhile is_lower (l # rest)
             @ sub_word_boundary (dropWhile is_lower (l # rest))
      else c # sub_word_boundary (u # l # rest))"
  by pat_completeness auto
termination
proof (relation "measure length")
  fix c u l :: char and rest :: string
  have "length (dropWhile is_lower (l # rest)) \<le> length (l # rest)"
    by (rule length_dropWhile_le)
  then show "(dropWhile is_lower (l # rest), c # u # l # rest) \<in> measure length"
    by simp
qed simp_all

text \<open>\<open>re.sub('([a-z0-9])([A-Z])', r'\1_\2', s)\<close>.\<close>

fun sub_case_boundary :: "string \<Rightarrow> string" where
  "sub_case_boundary [] = []"
| "sub_case_boundary [c] = [c]"
| "sub_case_boundary (c # u # rest) =
     (if (is_lower c \<or> is_digit c) \<and> is_upper u
      then c # CHR ''_'' # u # sub_case_boundary rest
      else c # sub_case_boundary (u # rest))"

text \<open>\<open>re.sub(r'[^a-zA-Z0-9]', '_', s)\<close>.\<close>

definition sub_non_alnum :: "string \<Rightarrow> string" where
  "sub_non_alnum s = map (\<lambda>c. if is_alnum c then c else CHR ''_'') s"

text \<open>\<open>re.sub(r'_+', '_', s)\<close>: every maximal run of underscores becomes one.\<close>

function sub_underscore_runs :: "string \<Rightarrow> string" where
  "sub_underscore_runs [] = []"
| "sub_underscore_runs (c # rest) =
     (if c = CHR ''_''
      then CHR ''_'' # sub_underscore_runs (dropWhile (\<lambda>x. x = CHR ''_'') rest)
      else c # sub_underscore_runs rest)"
  by pat_completeness auto
termination
proof (relation "measure length")
  fix c :: char and rest :: string
  have "length (dropWhile (\<lambda>x. x = CHR ''_'') rest) \<le> length rest"
    by (rule length_dropWhile_le)
  then show "(dropWhile (\<lambda>x. x = CHR ''_'') rest, c # rest) \<in> measure length"
    by simp
qed simp_all

definition to_snake_case :: "string \<Rightarrow> string" where
  "to_snake_case name' =
     (let s1 = sub_word_boundary name';
          s2 = sub_case_boundary s1;
          s3 = sub_non_alnum s2
      in strip_chars ''_'' (lower (sub_underscore_runs s3)))"

subsection \<open>clean\_data\<close>

text \<open>
  The loop over the object columns of the copy. The names are those of
  \<open>select_dtypes(include=['object']).columns\<close>, taken before the loop; the frame at
  \<open>cleaned_df\<close> is changed in place.
\<close>

fun strip_loop :: "pandas \<Rightarrow> string list \<Rightarrow> store \<Rightarrow> nat \<Rightarrow> exn + store" where
  "strip_loop pd [] st cleaned_df = Inr st"
| "strip_loop pd (col # cols) st cleaned_df =
     (case getitem (st ! cleaned_df) col of
        [] \<Rightarrow> Inl KeyError
      | [s] \<Rightarrow>
          if dtype s = Object_dtype then
            (case str_strip pd s of
               Inl e \<Rightarrow> Inl e
             | Inr s' \<Rightarrow>
                 strip_loop pd cols
                   (st[cleaned_df := setitem (st ! cleaned_df) col s']) cleaned_df)
          else strip_loop pd cols st cleaned_df
      | _ # _ # _ \<Rightarrow> Inl AttributeError)"

definition select_object_columns :: "frame \<Rightarrow> string list" where
  "select_object_columns df = map fst (filter (\<lambda>(n, s). dtype s = Object_dtype) df)"

text \<open>
  \<open>clean_data(df)\<close>, with \<open>df\<close> a reference into the store. \<open>df.copy()\<close> is a new
  object; the headers and the stripped columns are written into that copy; \<open>fillna\<close>
  returns one more new object, which is the result.
\<close>

definition clean_data :: "pandas \<Rightarrow> store \<Rightarrow> nat \<Rightarrow> exn + (store \<times> nat)" where
  "clean_data pd st df =
     (let (st1, cleaned_df) = alloc st (st ! df);
          st2 = st1[cleaned_df :=
                  set_columns (st1 ! cleaned_df) (map to_snake_case (columns (st1 ! cleaned_df)))]
      in case strip_loop pd (select_object_columns (st2 ! cleaned_df)) st2 cleaned_df of
           Inl e \<Rightarrow> Inl e
         | Inr st3 \<Rightarrow>
             (case fillna pd [] (st3 ! cleaned_df) of
                Inl e \<Rightarrow> Inl e
              | Inr filled \<Rightarrow> Inr (alloc st3 filled)))"

subsection \<open>normalize\_lead\_sources\<close>

definition possible_names :: "string list" where
  "possible_names = [''LeadSource'', ''lead_source'', ''lead source'', ''Lead Source'']"

definition find_lead_source_col :: "string list \<Rightarrow> string option" where
  "find_lead_source_col cols =
     find (\<lambda>col. replace_space (lower col)
                    \<in> set (map (\<lambda>n. replace_space (lower n)) possible_names)) cols"

record value_normalization =
  original_value :: string
  normalized_to :: string
  value_score :: real

text \<open>
  The inner function \<open>normalize_value\<close>; \<open>normalization_meta\<close>, the list it appends
  to, is passed through. The scorer is \<open>token_ratio\<close>.
\<close>

fun normalize_value ::
  "fuzz \<Rightarrow> (string, string) dict \<Rightarrow> value_normalization list \<Rightarrow> cell
     \<Rightarrow> exn + (cell \<times> value_normalization list)" where
  "normalize_value fz a2c normalization_meta Null = Inr (Null, normalization_meta)"
| "normalize_value fz a2c normalization_meta (Num n) = Inr (Num n, normalization_meta)"
| "normalize_value fz a2c normalization_meta (Str val) =
     (case best_match_score val (keys a2c) (token_ratio fz) of
        Inl e \<Rightarrow> Inl e
      | Inr (match, s) \<Rightarrow>
          if s \<ge> 85 then
            (case dict_get a2c match of
               None \<Rightarrow> Inl KeyError
             | Some canonical \<Rightarrow>
                 Inr (Str canonical,
                      normalization_meta @
                        [\<lparr>original_value = val, normalized_to = canonical, value_score = s\<rparr>]))
          else
            Inr (Str val,
                 normalization_meta @
                   [\<lparr>original_value = val, normalized_to = val, value_score = s\<rparr>]))"

text \<open>\<open>Series.apply(normalize_value)\<close>: the values in order, one call each.\<close>

fun apply_normalize_value ::
  "fuzz \<Rightarrow> (string, string) dict \<Rightarrow> cell list \<Rightarrow> value_normalization list
     \<Rightarrow> exn + (cell list \<times> value_normalization list)" where
  "apply_normalize_value fz a2c [] meta = Inr ([], meta)"
| "apply_normalize_value fz a2c (v # vs) meta =
     (case normalize_value fz a2c meta v of
        Inl e \<Rightarrow> Inl e
      | Inr (v', meta') \<Rightarrow>
          (case apply_normalize_value fz a2c vs meta' of
             Inl e \<Rightarrow> Inl e
           | Inr (vs', meta'') \<Rightarrow> Inr (v' # vs', meta'')))"

text \<open>
  The two shapes of the value returned: the frame alone, or the pair of the frame and
  the normalization records.
\<close>

datatype lead_source_result =
    Frame_only nat
  | Frame_and_meta nat "value_normalization list"

definition normalize_lead_sources ::
  "fuzz \<Rightarrow> store \<Rightarrow> nat \<Rightarrow> exn + (store \<times> lead_source_result)" where
  "normalize_lead_sources fz st df =
     (case find_lead_source_col (columns (st ! df)) of
        None \<Rightarrow> Inr (st, Frame_only df)
      | Some lead_source_col \<Rightarrow>
          if lead_source_col = [] then Inr (st, Frame_only df)
          else
            (let alias_to_canonical = build_alias_to_canonical LEAD_SOURCES in
             case getitem (st ! df) lead_source_col of
               [] \<Rightarrow> Inl KeyError
             | [s] \<Rightarrow>
                 (case apply_normalize_value fz alias_to_canonical (vals s) [] of
                    Inl e \<Rightarrow> Inl e
                  | Inr (vals', normalization_meta) \<Rightarrow>
                      Inr (st[df := setitem (st ! df) lead_source_col (s\<lparr>vals := vals'\<rparr>)],
                           Frame_and_meta df normalization_meta))
             | _ # _ # _ \<Rightarrow> Inl (ValueError ''The truth value of a Series is ambiguous'')))"

section \<open>Sample libraries\<close>

text \<open>
  Small instances of the two library interfaces, on which the model is run at concrete
  inputs. The sample scorers give 100 to equal strings; the weighted ratio also gives 90
  when one string begins the other, as rapidfuzz does for a partial match, and everything
  else scores 0. The sample conversions always succeed: they set the dtype, strip the
  strings of a column (a value that is not a string becomes null), and fill the nulls.
\<close>

fun begins :: "string \<Rightarrow> string \<Rightarrow> bool" where
  "begins [] ys = True"
| "begins (x # xs) [] = False"
| "begins (x # xs) (y # ys) = (x = y \<and> begins xs ys)"

definition fuzz_sample :: fuzz where
  "fuzz_sample =
     \<lparr>fuzz_token_sort_ratio = (\<lambda>a b. if a = b then 100 else 0),
      fuzz_WRatio = (\<lambda>a b. if a = b then 100 else if begins a b \<or> begins b a then 90 else 0)\<rparr>"

definition strip_cell :: "cell \<Rightarrow> cell" where
  "strip_cell v = (case v of Str x \<Rightarrow> Str (strip_chars whitespace x) | _ \<Rightarrow> Null)"

definition fill_cell :: "string \<Rightarrow> cell \<Rightarrow> cell" where
  "fill_cell value v = (case v of Null \<Rightarrow> Str value | _ \<Rightarrow> v)"

definition pandas_sample :: pandas where
  "pandas_sample =
     \<lparr>astype_Int64 = (\<lambda>s. Inr (s\<lparr>dtype := Int64_nullable\<rparr>)),
      astype_float64 = (\<lambda>s. Inr (s\<lparr>dtype := Float64\<rparr>)),
      str_strip = (\<lambda>s. Inr \<lparr>dtype = Object_dtype, vals = map strip_cell (vals s)\<rparr>),
      fillna = (\<lambda>value df. Inr (map (\<lambda>(n, s). (n, s\<lparr>vals := map (fill_cell value) (vals s)\<rparr>)) df))\<rparr>"


text \<open>The reads of a file whose table has the single column \<open>vin\<close> and two rows.\<close>

definition one_column_reads :: csv_reads where
  "one_column_reads =
     \<lparr>sample_columns = Inr [''vin''],
      full_read = Inr [(''vin'', \<lparr>dtype = Object_dtype, vals = [Str ''1A'', Str ''2B'']\<rparr>)]\<rparr>"

text \<open>The reads of a file whose table has two columns and no row.\<close>

definition no_row_reads :: csv_reads where
  "no_row_reads =
     \<lparr>sample_columns = Inr [''vin'', ''price''],
      full_read = Inr [(''vin'', \<lparr>dtype = Object_dtype, vals = []\<rparr>),
                       (''price'', \<lparr>dtype = Object_dtype, vals = []\<rparr>)]\<rparr>"



section \<open>Vocabulary of the properties\<close>

text \<open>
  The entries of a configuration that claim a string, as an alias or as their own name,
  in the order of the configuration.
\<close>

definition claimants :: "canonical_entry list \<Rightarrow> string \<Rightarrow> canonical_entry list" where
  "claimants cfg a = filter (\<lambda>e. a \<in> set (aliases e) \<or> a = name e) cfg"

text \<open>
  The form of a snake-case header: small letters, digits and single underscores, with no
  underscore at either end.
\<close>

definition snake_char :: "char \<Rightarrow> bool" where
  "snake_char c \<longleftrightarrow> is_lower c \<or> is_digit c \<or> c = CHR ''_''"

fun no_double :: "string \<Rightarrow> bool" where
  "no_double (a # b # r) = ((a \<noteq> CHR ''_'' \<or> b \<noteq> CHR ''_'') \<and> no_double (b # r))"
| "no_double _ = True"

definition snake_form :: "string \<Rightarrow> bool" where
  "snake_form s \<longleftrightarrow>
     list_all snake_char s \<and> no_double s
     \<and> (s = [] \<or> (hd s \<noteq> CHR ''_'' \<and> last s \<noteq> CHR ''_''))"

text \<open>
  The string values of a column, in order, and the relation between a value and its
  replacement that leaves everything but a string as it is.
\<close>

fun strings_of :: "cell list \<Rightarrow> string list" where
  "strings_of [] = []"
| "strings_of (Str s # vs) = s # strings_of vs"
| "strings_of (v # vs) = strings_of vs"

definition unchanged_unless_string :: "cell \<Rightarrow> cell \<Rightarrow> bool" where
  "unchanged_unless_string v v' = (case v of Str s \<Rightarrow> True | _ \<Rightarrow> v' = v)"



text \<open>
  A column of the caller's frame and the column the cleaner hands to \<open>fillna\<close>: the
  header in snake case, and the values stripped when the column has dtype \<open>object\<close>.
\<close>

definition stripped_column :: "pandas \<Rightarrow> string \<times> series \<Rightarrow> string \<times> series \<Rightarrow> bool" where
  "stripped_column pd c c' \<longleftrightarrow>
     fst c' = to_snake_case (fst c)
     \<and> (if dtype (snd c) = Object_dtype then str_strip pd (snd c) = Inr (snd c')
        else snd c' = snd c)"

section \<open>The alias registry\<close>

lemma map_of_dict_set: "map_of (dict_set d k v) = (map_of d)(k \<mapsto> v)"
  by (induction d k v rule: dict_set.induct) auto

lemma keys_dict_set: "set (keys (dict_set d k v)) = insert k (set (keys d))"
proof (induction d)
  case Nil
  show ?case by (simp add: keys_def)
next
  case (Cons p d)
  obtain k' v' where p: "p = (k', v')" by (cases p)
  show ?case
  proof (cases "k' = k")
    case True
    with p show ?thesis by (simp add: keys_def)
  next
    case False
    with p Cons show ?thesis by (simp add: keys_def insert_commute)
  qed
qed


lemma map_of_assign_aliases:
  "map_of (foldl (\<lambda>d' alias. dict_set d' alias n) d as) x =
     (if x \<in> set as then Some n else map_of d x)"
  by (induction as arbitrary: d) (auto simp: map_of_dict_set)

lemma keys_assign_aliases:
  "set (keys (foldl (\<lambda>d' alias. dict_set d' alias n) d as)) = set (keys d) \<union> set as"
  by (induction as arbitrary: d) (auto simp: keys_dict_set)

lemma map_of_add_entry:
  "map_of (add_entry d e) x =
     (if x \<in> set (aliases e) \<or> x = name e then Some (name e) else map_of d x)"
  by (simp add: add_entry_def map_of_dict_set map_of_assign_aliases)

lemma keys_add_entry:
  "set (keys (add_entry d e)) = set (keys d) \<union> set (aliases e) \<union> {name e}"
  by (auto simp: add_entry_def keys_dict_set keys_assign_aliases)

lemma build_snoc:
  "build_alias_to_canonical (cfg @ [e]) = add_entry (build_alias_to_canonical cfg) e"
  by (simp add: build_alias_to_canonical_def)

lemma dict_get_build:
  "dict_get (build_alias_to_canonical cfg) a =
     (if claimants cfg a = [] then None else Some (name (last (claimants cfg a))))"
proof (induction cfg rule: rev_induct)
  case Nil
  show ?case
    by (simp add: build_alias_to_canonical_def dict_get_def claimants_def)
next
  case (snoc e cfg)
  show ?case
  proof (cases "a \<in> set (aliases e) \<or> a = name e")
    case True
    then have "claimants (cfg @ [e]) a = claimants cfg a @ [e]"
      by (simp add: claimants_def)
    with True show ?thesis
      by (simp add: dict_get_def build_snoc map_of_add_entry)
  next
    case False
    then have "claimants (cfg @ [e]) a = claimants cfg a"
      by (simp add: claimants_def)
    with False snoc show ?thesis
      by (simp add: dict_get_def build_snoc map_of_add_entry)
  qed
qed

lemma keys_build:
  "set (keys (build_alias_to_canonical cfg)) = (\<Union>e \<in> set cfg. set (aliases e) \<union> {name e})"
proof (induction cfg rule: rev_induct)
  case Nil
  show ?case by (simp add: build_alias_to_canonical_def keys_def)
next
  case (snoc e cfg)
  have "set (keys (build_alias_to_canonical (cfg @ [e]))) =
      set (keys (build_alias_to_canonical cfg)) \<union> set (aliases e) \<union> {name e}"
    by (simp only: build_snoc keys_add_entry)
  with snoc show ?case by auto
qed

lemma keys_build_nonempty: "cfg \<noteq> [] \<Longrightarrow> keys (build_alias_to_canonical cfg) \<noteq> []"
proof -
  assume "cfg \<noteq> []"
  then obtain e where "e \<in> set cfg" by (cases cfg) auto
  then have "name e \<in> set (keys (build_alias_to_canonical cfg))"
    by (auto simp: keys_build)
  then show ?thesis by auto
qed

lemma dict_get_keys: "k \<in> set (keys d) \<Longrightarrow> \<exists>v. dict_get d k = Some v"
  unfolding keys_def dict_get_def
  by (induction d) auto

text \<open>
  Claim C2, as amended. Building the lookup never fails and never reports an ambiguous
  configuration: a string claimed by several entries, as an alias or as a name, resolves
  to the name of the last entry of the configuration that claims it, and a string that no
  entry claims is absent.
\<close>

theorem ambiguous_alias_last_claimant_wins:
  "dict_get (build_alias_to_canonical cfg) a =
     (if claimants cfg a = [] then None else Some (name (last (claimants cfg a))))"
  by (rule dict_get_build)

text \<open>
  Claim C2 as stated fails: a configuration in which \<open>date\<close> is an alias of two
  different canonical names is built without an error, and the lookup resolves
  \<open>date\<close> to the second of them.
\<close>

theorem ambiguous_alias_resolved_silently:
  "build_alias_to_canonical
     [\<lparr>name = ''SoldDate'', aliases = [''date'']\<rparr>,
      \<lparr>name = ''ContactDate'', aliases = [''date'']\<rparr>]
   = [(''date'', ''ContactDate''), (''SoldDate'', ''SoldDate''), (''ContactDate'', ''ContactDate'')]"
  by (simp add: build_alias_to_canonical_def add_entry_def)

section \<open>The matcher\<close>

lemma extract_loop_Some:
  "best \<noteq> None \<or> cs \<noteq> [] \<Longrightarrow> \<exists>r. extract_loop query sc best i cs = Some r"
proof (induction cs arbitrary: best i)
  case Nil
  then show ?case by auto
next
  case (Cons c cs)
  define best' where "best' =
    (case best of
       None \<Rightarrow> Some (c, sc query c, i)
     | Some (bc, bs, bi) \<Rightarrow> if sc query c > bs then Some (c, sc query c, i) else best)"
  have "best' \<noteq> None"
    by (auto simp: best'_def split: option.splits)
  then have "\<exists>r. extract_loop query sc best' (Suc i) cs = Some r"
    by (intro Cons.IH) simp
  then show ?case
    by (simp add: best'_def)
qed

lemma extract_loop_best:
  assumes "extract_loop query sc best i cs = Some (m, s, j)"
    and "\<And>bm bs bi. best = Some (bm, bs, bi) \<Longrightarrow> bs = sc query bm"
  shows "s = sc query m \<and> (m \<in> set cs \<or> best = Some (m, s, j))
         \<and> (\<forall>c \<in> set cs. sc query c \<le> s)
         \<and> (\<forall>bm bs bi. best = Some (bm, bs, bi) \<longrightarrow> bs \<le> s)"
  using assms
proof (induction cs arbitrary: best i)
  case Nil
  then show ?case by auto
next
  case (Cons c cs)
  define best' where "best' =
    (case best of
       None \<Rightarrow> Some (c, sc query c, i)
     | Some (bc, bs, bi) \<Rightarrow> if sc query c > bs then Some (c, sc query c, i) else best)"
  have run: "extract_loop query sc best' (Suc i) cs = Some (m, s, j)"
    using Cons.prems(1) by (simp add: best'_def)
  have inv: "\<And>bm bs bi. best' = Some (bm, bs, bi) \<Longrightarrow> bs = sc query bm"
    using Cons.prems(2) by (auto simp: best'_def split: option.splits if_splits)
  have ih: "s = sc query m \<and> (m \<in> set cs \<or> best' = Some (m, s, j))
         \<and> (\<forall>c \<in> set cs. sc query c \<le> s)
         \<and> (\<forall>bm bs bi. best' = Some (bm, bs, bi) \<longrightarrow> bs \<le> s)"
    by (rule Cons.IH [OF run inv])
  show ?case
  proof (cases best)
    case None
    then have b': "best' = Some (c, sc query c, i)" by (simp add: best'_def)
    with ih have "sc query c \<le> s" by blast
    with ih b' None show ?thesis by auto
  next
    case (Some b)
    obtain om os oi where b: "b = (om, os, oi)" by (cases b)
    show ?thesis
    proof (cases "sc query c > os")
      case True
      then have b': "best' = Some (c, sc query c, i)" by (simp add: best'_def Some b)
      with ih have "sc query c \<le> s" by blast
      with ih b' Some b True show ?thesis by auto
    next
      case False
      then have b': "best' = best" by (simp add: best'_def Some b)
      with ih Some b have "os \<le> s" by blast
      with ih b' Some b False show ?thesis by auto
    qed
  qed
qed

lemma best_match_score_best:
  assumes "best_match_score query choices sc = Inr (m, s)"
  shows "m \<in> set choices \<and> s = sc query m \<and> (\<forall>c \<in> set choices. sc query c \<le> s)"
proof -
  from assms obtain j where "extract_loop query sc None 0 choices = Some (m, s, j)"
    by (auto simp: best_match_score_def extractOne_def split: option.splits)
  from extract_loop_best [OF this] show ?thesis by auto
qed

lemma best_match_score_nonempty:
  "choices \<noteq> [] \<Longrightarrow> \<exists>m s. best_match_score query choices sc = Inr (m, s)"
proof -
  assume "choices \<noteq> []"
  then obtain r where "extractOne query choices sc = Some r"
    using extract_loop_Some [of None choices query sc 0] by (auto simp: extractOne_def)
  then show ?thesis
    by (cases r) (simp add: best_match_score_def)
qed

text \<open>
  Claim C8. On an empty candidate list \<open>best_match_score\<close> does not return a pair:
  \<open>extractOne\<close> yields no candidate and the unpacking raises \<open>TypeError\<close>. It returns
  a (match, score) pair exactly when the candidate list is non-empty.
\<close>

theorem best_match_score_empty_raises:
  "extractOne query [] sc = None
   \<and> best_match_score query [] sc = Inl TypeError
   \<and> ((\<exists>m s. best_match_score query choices sc = Inr (m, s)) \<longleftrightarrow> choices \<noteq> [])"
proof -
  have e: "extractOne query [] sc = None"
    by (simp add: extractOne_def)
  have r: "best_match_score query [] sc = Inl TypeError"
    by (simp add: best_match_score_def e)
  have "(\<exists>m s. best_match_score query choices sc = Inr (m, s)) \<longleftrightarrow> choices \<noteq> []"
  proof (cases "choices = []")
    case True
    then show ?thesis by (simp add: r)
  next
    case False
    then show ?thesis using best_match_score_nonempty by blast
  qed
  with e r show ?thesis by blast
qed


section \<open>Column reconciliation\<close>

lemma map_column_result:
  assumes "keys a2c \<noteq> []"
  shows "\<exists>m s canonical.
           best_match_score col (keys a2c) (token_ratio fz) = Inr (m, s)
           \<and> dict_get a2c m = Some canonical
           \<and> map_column fz a2c col =
               Inr \<lparr>original_column = col, mapped_to = (if s \<ge> 85 then canonical else col),
                    score = s\<rparr>"
proof -
  obtain m s where b: "best_match_score col (keys a2c) (token_ratio fz) = Inr (m, s)"
    using best_match_score_nonempty [OF assms, of col "token_ratio fz"] by auto
  have "m \<in> set (keys a2c)"
    using best_match_score_best [OF b] by simp
  then obtain canonical where c: "dict_get a2c m = Some canonical"
    using dict_get_keys [of m a2c] by auto
  have "map_column fz a2c col =
      Inr \<lparr>original_column = col, mapped_to = (if s \<ge> 85 then canonical else col), score = s\<rparr>"
    by (simp add: map_column_def b c)
  with b c show ?thesis by (intro exI [of _ m] exI [of _ s] exI [of _ canonical] conjI)
qed

lemma EXPECTED_COLUMNS_keys: "keys (build_alias_to_canonical EXPECTED_COLUMNS) \<noteq> []"
  by (rule keys_build_nonempty) (simp add: EXPECTED_COLUMNS_def)

lemma LEAD_SOURCES_keys: "keys (build_alias_to_canonical LEAD_SOURCES) \<noteq> []"
  by (rule keys_build_nonempty) (simp add: LEAD_SOURCES_def)

text \<open>
  Claim C1, as amended. Column reconciliation scores each input column name against the
  full alias universe with the token-sort ratio (\<open>token_ratio\<close>), not the weighted ratio:
  the recorded score is the highest token-sort ratio over the candidates, reached at the
  best match, and the column is mapped to the canonical name owning the best match exactly
  when that score is at least 85; otherwise it keeps its own name.
\<close>

theorem column_scored_by_token_ratio:
  "\<exists>m s. best_match_score col (keys (build_alias_to_canonical EXPECTED_COLUMNS)) (token_ratio fz)
            = Inr (m, s)
     \<and> m \<in> set (keys (build_alias_to_canonical EXPECTED_COLUMNS))
     \<and> s = fuzz_token_sort_ratio fz col m
     \<and> (\<forall>c \<in> set (keys (build_alias_to_canonical EXPECTED_COLUMNS)).
           fuzz_token_sort_ratio fz col c \<le> s)
     \<and> map_column fz (build_alias_to_canonical EXPECTED_COLUMNS) col =
         Inr \<lparr>original_column = col,
              mapped_to = (if s \<ge> 85 then name (last (claimants EXPECTED_COLUMNS m)) else col),
              score = s\<rparr>"
proof -
  let ?a2c = "build_alias_to_canonical EXPECTED_COLUMNS"
  obtain m s canonical where
    b: "best_match_score col (keys ?a2c) (token_ratio fz) = Inr (m, s)"
    and c: "dict_get ?a2c m = Some canonical"
    and r: "map_column fz ?a2c col =
       Inr \<lparr>original_column = col, mapped_to = (if s \<ge> 85 then canonical else col), score = s\<rparr>"
    using map_column_result [OF EXPECTED_COLUMNS_keys, of col fz] by auto
  from best_match_score_best [OF b]
  have best: "m \<in> set (keys ?a2c)" "s = fuzz_token_sort_ratio fz col m"
    "\<forall>c \<in> set (keys ?a2c). fuzz_token_sort_ratio fz col c \<le> s"
    by (auto simp: token_ratio_def)
  from c have "canonical = name (last (claimants EXPECTED_COLUMNS m))"
    by (simp add: dict_get_build split: if_splits)
  then have "map_column fz ?a2c col =
       Inr \<lparr>original_column = col,
            mapped_to = (if s \<ge> 85 then name (last (claimants EXPECTED_COLUMNS m)) else col),
            score = s\<rparr>"
    using r by simp
  with b best show ?thesis
    by (intro exI [of _ m] exI [of _ s] conjI)
qed

lemmas sample_eval =
  build_alias_to_canonical_def add_entry_def EXPECTED_COLUMNS_def LEAD_SOURCES_def keys_def
  dict_get_def best_match_score_def extractOne_def token_ratio_def WRatio_def fuzz_sample_def
  map_column_def fuzzy_column_mapping_def

text \<open>
  The theorem at the column \<open>sale_price\<close> with the sample scorers: the best match is the
  alias itself, and the mapped name follows from the theorem.
\<close>

theorem column_scored_by_token_ratio_witness:
  "best_match_score ''sale_price'' (keys (build_alias_to_canonical EXPECTED_COLUMNS))
      (token_ratio fuzz_sample) = Inr (''sale_price'', 100)
   \<and> map_column fuzz_sample (build_alias_to_canonical EXPECTED_COLUMNS) ''sale_price'' =
       Inr \<lparr>original_column = ''sale_price'', mapped_to = ''SellingPrice'', score = 100\<rparr>"
proof -
  have ev: "best_match_score ''sale_price'' (keys (build_alias_to_canonical EXPECTED_COLUMNS))
      (token_ratio fuzz_sample) = Inr (''sale_price'', 100)"
    by (simp add: sample_eval)
  have owner: "name (last (claimants EXPECTED_COLUMNS ''sale_price'')) = ''SellingPrice''"
    by (simp add: claimants_def EXPECTED_COLUMNS_def)
  from column_scored_by_token_ratio [of "''sale_price''" fuzz_sample]
  have "map_column fuzz_sample (build_alias_to_canonical EXPECTED_COLUMNS) ''sale_price'' =
       Inr \<lparr>original_column = ''sale_price'', mapped_to = ''SellingPrice'', score = 100\<rparr>"
    unfolding ev by (auto simp: owner)
  with ev show ?thesis by simp
qed

text \<open>
  Claim C1 as stated fails. For the column \<open>price_usd\<close> the weighted ratio of the sample
  library reaches 90 at the alias \<open>price\<close>, above the threshold, but the column is left
  unmapped with the token-sort score 0. (rapidfuzz itself gives this column 90 and about
  71 against \<open>price\<close>, on the same sides of the threshold.)
\<close>

theorem column_not_scored_by_WRatio:
  "best_match_score ''price_usd'' (keys (build_alias_to_canonical EXPECTED_COLUMNS))
      (WRatio fuzz_sample) = Inr (''price'', 90)
   \<and> fuzzy_column_mapping fuzz_sample EXPECTED_COLUMNS [''price_usd''] =
       Inr ([(''price_usd'', ''price_usd'')],
            [\<lparr>original_column = ''price_usd'', mapped_to = ''price_usd'', score = 0\<rparr>])"
  by (simp add: sample_eval)

lemma mapping_loop_records:
  assumes "keys a2c \<noteq> []"
  shows "\<exists>mapping' rs.
           mapping_loop fz a2c cols (mapping, meta) = Inr (mapping', meta @ rs)
           \<and> list_all2 (\<lambda>c r. map_column fz a2c c = Inr r) cols rs"
proof (induction cols arbitrary: mapping meta)
  case Nil
  show ?case by simp
next
  case (Cons col cols)
  obtain r where r: "map_column fz a2c col = Inr r"
    using map_column_result [OF assms, of col fz] by auto
  obtain mapping' rs where
    run: "mapping_loop fz a2c cols (dict_set mapping col (mapped_to r), meta @ [r])
            = Inr (mapping', (meta @ [r]) @ rs)"
    and rel: "list_all2 (\<lambda>c r. map_column fz a2c c = Inr r) cols rs"
    using Cons.IH [of "dict_set mapping col (mapped_to r)" "meta @ [r]"] by auto
  have "mapping_loop fz a2c (col # cols) (mapping, meta) = Inr (mapping', meta @ (r # rs))"
    using run by (simp add: r)
  moreover have "list_all2 (\<lambda>c r. map_column fz a2c c = Inr r) (col # cols) (r # rs)"
    using r rel by simp
  ultimately show ?case
    by (intro exI [of _ mapping'] exI [of _ "r # rs"] conjI)
qed

lemma map_column_record:
  assumes "map_column fz a2c col = Inr r"
  shows "original_column r = col
         \<and> (score r < 85 \<longrightarrow> mapped_to r = col)
         \<and> (\<exists>m. best_match_score col (keys a2c) (token_ratio fz) = Inr (m, score r))"
proof (cases "best_match_score col (keys a2c) (token_ratio fz)")
  case (Inl e)
  with assms show ?thesis by (simp add: map_column_def)
next
  case (Inr p)
  obtain m s where p: "p = (m, s)" by (cases p)
  show ?thesis
  proof (cases "s \<ge> 85")
    case True
    with assms Inr p show ?thesis
      by (auto simp: map_column_def split: option.splits)
  next
    case False
    with assms Inr p show ?thesis
      by (auto simp: map_column_def)
  qed
qed

text \<open>
  Claim C3. For every list of input column names the reconciliation returns, with one
  \<open>mapping_meta\<close> record per column in input order; a record whose score is below 85 has
  the original name as its mapped name, and its score is the best score found against the
  alias universe.
\<close>

theorem one_mapping_record_per_column:
  "\<exists>mapping meta.
     fuzzy_column_mapping fz EXPECTED_COLUMNS cols = Inr (mapping, meta)
     \<and> length meta = length cols
     \<and> map original_column meta = cols
     \<and> (\<forall>r \<in> set meta.
           (score r < 85 \<longrightarrow> mapped_to r = original_column r)
           \<and> (\<exists>m. best_match_score (original_column r)
                      (keys (build_alias_to_canonical EXPECTED_COLUMNS)) (token_ratio fz)
                    = Inr (m, score r)))"
proof -
  let ?a2c = "build_alias_to_canonical EXPECTED_COLUMNS"
  obtain mapping meta where
    run: "mapping_loop fz ?a2c cols ([], []) = Inr (mapping, [] @ meta)"
    and rel: "list_all2 (\<lambda>c r. map_column fz ?a2c c = Inr r) cols meta"
    using mapping_loop_records [OF EXPECTED_COLUMNS_keys, of fz cols "[]" "[]"] by auto
  have len: "length meta = length cols"
    using rel by (simp add: list_all2_lengthD)
  have each: "\<And>i. i < length cols \<Longrightarrow> map_column fz ?a2c (cols ! i) = Inr (meta ! i)"
    using list_all2_nthD [OF rel] by simp
  have orig: "map original_column meta = cols"
  proof (rule nth_equalityI)
    show "length (map original_column meta) = length cols" by (simp add: len)
  next
    fix i assume "i < length (map original_column meta)"
    then have i: "i < length cols" by (simp add: len)
    from map_column_record [OF each [OF i]] i len
    show "map original_column meta ! i = cols ! i" by simp
  qed
  have props: "\<forall>r \<in> set meta.
           (score r < 85 \<longrightarrow> mapped_to r = original_column r)
           \<and> (\<exists>m. best_match_score (original_column r) (keys ?a2c) (token_ratio fz)
                    = Inr (m, score r))"
  proof
    fix r assume "r \<in> set meta"
    then obtain i where i: "i < length meta" and r: "r = meta ! i"
      by (auto simp: in_set_conv_nth)
    from i have ic: "i < length cols" by (simp add: len)
    from map_column_record [OF each [OF ic]] r
    show "(score r < 85 \<longrightarrow> mapped_to r = original_column r)
           \<and> (\<exists>m. best_match_score (original_column r) (keys ?a2c) (token_ratio fz)
                    = Inr (m, score r))"
      by (auto split: if_splits)
  qed
  from run have "fuzzy_column_mapping fz EXPECTED_COLUMNS cols = Inr (mapping, meta)"
    by (simp add: fuzzy_column_mapping_def)
  with len orig props show ?thesis
    by (intro exI [of _ mapping] exI [of _ meta] conjI)
qed

text \<open>
  Two columns under the sample scorers: an alias, and a name that matches nothing.
\<close>

theorem one_mapping_record_per_column_witness:
  "fuzzy_column_mapping fuzz_sample EXPECTED_COLUMNS [''customer'', ''Randomzzz123''] =
     Inr ([(''customer'', ''CustomerName''), (''Randomzzz123'', ''Randomzzz123'')],
          [\<lparr>original_column = ''customer'', mapped_to = ''CustomerName'', score = 100\<rparr>,
           \<lparr>original_column = ''Randomzzz123'', mapped_to = ''Randomzzz123'', score = 0\<rparr>])"
proof -
  have ev: "fuzzy_column_mapping fuzz_sample EXPECTED_COLUMNS [''customer'', ''Randomzzz123''] =
     Inr ([(''customer'', ''CustomerName''), (''Randomzzz123'', ''Randomzzz123'')],
          [\<lparr>original_column = ''customer'', mapped_to = ''CustomerName'', score = 100\<rparr>,
           \<lparr>original_column = ''Randomzzz123'', mapped_to = ''Randomzzz123'', score = 0\<rparr>])"
    by (simp add: sample_eval)
  from one_mapping_record_per_column [of fuzz_sample "[''customer'', ''Randomzzz123'']"]
  obtain mapping meta where
    "fuzzy_column_mapping fuzz_sample EXPECTED_COLUMNS [''customer'', ''Randomzzz123'']
       = Inr (mapping, meta)"
    "length meta = length [''customer'', ''Randomzzz123'']"
    by blast
  with ev show ?thesis by simp
qed

section \<open>Validation and promotion in the loader\<close>

lemma columns_setitem: "col \<in> set (columns df) \<Longrightarrow> columns (setitem df col s) = columns df"
  by (auto simp: setitem_def columns_def split_def)

lemma getitem_in_columns: "getitem df col = [s] \<Longrightarrow> col \<in> set (columns df)"
proof -
  assume "getitem df col = [s]"
  then have "filter (\<lambda>(n, s). n = col) df \<noteq> []"
    by (auto simp: getitem_def)
  then obtain p where "p \<in> set df" "fst p = col"
    by (auto simp: filter_empty_conv)
  then show ?thesis
    by (auto simp: columns_def)
qed


lemma getitem_distinct:
  "distinct (columns df) \<Longrightarrow> col \<in> set (columns df) \<Longrightarrow> \<exists>s. getitem df col = [s]"
proof (induction df)
  case Nil
  then show ?case by (simp add: columns_def)
next
  case (Cons p df)
  obtain n s where p: "p = (n, s)" by (cases p)
  show ?case
  proof (cases "n = col")
    case True
    with Cons.prems p have "col \<notin> fst ` set df" by (simp add: columns_def)
    then have "filter (\<lambda>(n, s). n = col) df = []"
      by (force simp: filter_empty_conv)
    with True p show ?thesis by (simp add: getitem_def)
  next
    case False
    with Cons p show ?thesis by (simp add: getitem_def columns_def)
  qed
qed

lemma getitem_setitem_same:
  "getitem df col = [s] \<Longrightarrow> getitem (setitem df col s') col = [s']"
proof -
  assume g: "getitem df col = [s]"
  have "map snd (filter (\<lambda>(n, s). n = col) (map (\<lambda>(n, old). if n = col then (n, s') else (n, old)) xs))
        = map (\<lambda>_. s') (filter (\<lambda>(n, s). n = col) xs)" for xs :: frame
    by (induction xs) (auto split: if_splits)
  then have "getitem (setitem df col s') col = map (\<lambda>_. s') (map snd (filter (\<lambda>(n, s). n = col) df))"
    using getitem_in_columns [OF g] by (simp add: getitem_def setitem_def)
  with g show ?thesis
    by (simp add: getitem_def)
qed

lemma promote_column_columns:
  "promote_column pd df col = Inr df' \<Longrightarrow> columns df' = columns df"
proof -
  assume p: "promote_column pd df col = Inr df'"
  show ?thesis
  proof (cases "getitem df col")
    case Nil
    with p show ?thesis by (simp add: promote_column_def)
  next
    case (Cons s rest)
    show ?thesis
    proof (cases rest)
      case Nil
      with Cons have g: "getitem df col = [s]" by simp
      then have "col \<in> set (columns df)" by (rule getitem_in_columns)
      with p g show ?thesis
        by (auto simp: promote_column_def columns_setitem split: if_splits sum.splits)
    next
      case (Cons t rest')
      with \<open>getitem df col = s # rest\<close> p show ?thesis by (simp add: promote_column_def)
    qed
  qed
qed

lemma promote_loop_columns:
  "promote_loop pd cols df = Inr df' \<Longrightarrow> columns df' = columns df"
proof (induction cols arbitrary: df)
  case Nil
  then show ?case by simp
next
  case (Cons col cols)
  from Cons.prems obtain d where d: "promote_column pd df col = Inr d"
    and rest: "promote_loop pd cols d = Inr df'"
    by (auto split: sum.splits)
  from Cons.IH [OF rest] promote_column_columns [OF d] show ?case by simp
qed

lemma fuzzy_column_mapping_total:
  "\<exists>mapping meta. fuzzy_column_mapping fz EXPECTED_COLUMNS cols = Inr (mapping, meta)"
  using mapping_loop_records [OF EXPECTED_COLUMNS_keys, of fz cols "[]" "[]"]
  by (auto simp: fuzzy_column_mapping_def)

text \<open>
  Claim C10. \<open>load_csv_file\<close> rejects more than empty input. When the reads succeed,
  the table that reaches the validation is refused with a \<open>ValueError\<close> when it is empty,
  and also when it is not empty but has fewer than two columns, so that a non-empty table
  of a single column is refused; only a non-empty table of at least two columns is
  returned, with the mapping and its records.
\<close>

theorem load_csv_file_validation:
  assumes "sample_columns rd = Inr cols"
    and "full_read rd = Inr df"
    and "promote_loop pd (columns df) df = Inr df'"
  shows "\<exists>mapping mapping_meta.
           fuzzy_column_mapping fz EXPECTED_COLUMNS cols = Inr (mapping, mapping_meta)
           \<and> load_csv_file fz pd rd =
               (if df_empty df' then Inl (ValueError ''The CSV file is empty'')
                else if length (columns df) < 2
                  then Inl (ValueError ''The CSV file must have at least two columns'')
                else Inr (df', mapping, mapping_meta))"
proof -
  have same: "columns df' = columns df"
    using assms(3) by (rule promote_loop_columns)
  obtain mapping meta where
    m: "fuzzy_column_mapping fz EXPECTED_COLUMNS cols = Inr (mapping, meta)"
    using fuzzy_column_mapping_total [of fz cols] by auto
  have "load_csv_file fz pd rd =
      (case basic_validation df' of Inl e \<Rightarrow> Inl e | Inr u \<Rightarrow> Inr (df', mapping, meta))"
    by (simp add: load_csv_file_def assms m)
  then have "load_csv_file fz pd rd =
               (if df_empty df' then Inl (ValueError ''The CSV file is empty'')
                else if length (columns df) < 2
                  then Inl (ValueError ''The CSV file must have at least two columns'')
                else Inr (df', mapping, meta))"
    by (simp add: basic_validation_def same)
  with m show ?thesis
    by (intro exI [of _ mapping] exI [of _ meta] conjI)
qed

lemmas loader_eval =
  columns_def promote_column_def getitem_def setitem_def is_integer_dtype_def isnull_any_def
  df_empty_def

text \<open>
  A table with the single column \<open>vin\<close> and two rows, and a table of two columns with no
  row.
\<close>

theorem load_csv_file_validation_witness:
  "load_csv_file fuzz_sample pandas_sample one_column_reads =
       Inl (ValueError ''The CSV file must have at least two columns'')
   \<and> load_csv_file fuzz_sample pandas_sample no_row_reads =
       Inl (ValueError ''The CSV file is empty'')"
proof -
  let ?one = "[(''vin'', \<lparr>dtype = Object_dtype, vals = [Str ''1A'', Str ''2B'']\<rparr>)]"
  let ?none = "[(''vin'', \<lparr>dtype = Object_dtype, vals = []\<rparr>),
                (''price'', \<lparr>dtype = Object_dtype, vals = []\<rparr>)]"
  have a1: "sample_columns one_column_reads = Inr [''vin'']"
    and a2: "full_read one_column_reads = Inr ?one"
    by (simp_all add: one_column_reads_def)
  have a3: "promote_loop pandas_sample (columns ?one) ?one = Inr ?one"
    by (simp add: loader_eval)
  have b1: "sample_columns no_row_reads = Inr [''vin'', ''price'']"
    and b2: "full_read no_row_reads = Inr ?none"
    by (simp_all add: no_row_reads_def)
  have b3: "promote_loop pandas_sample (columns ?none) ?none = Inr ?none"
    by (simp add: loader_eval)
  from load_csv_file_validation [OF a1 a2 a3, of fuzz_sample]
  have a: "load_csv_file fuzz_sample pandas_sample one_column_reads =
       Inl (ValueError ''The CSV file must have at least two columns'')"
    by (auto simp: df_empty_def columns_def)
  from load_csv_file_validation [OF b1 b2 b3, of fuzz_sample]
  have b: "load_csv_file fuzz_sample pandas_sample no_row_reads =
       Inl (ValueError ''The CSV file is empty'')"
    by (auto simp: df_empty_def)
  from a b show ?thesis by simp
qed

lemma setitem_as_map:
  "col \<in> set (columns df) \<Longrightarrow>
     setitem df col v = map (\<lambda>c. if fst c = col then (fst c, v) else c) df"
  by (auto simp: setitem_def split_def)






section \<open>Header normalization\<close>

lemmas char_class_defs =
  is_alnum_def is_upper_def is_lower_def is_digit_def to_lower_def
  ascii_uppercase_def ascii_lowercase_def digits_def

lemma to_lower_upper: "is_upper c \<Longrightarrow> is_lower (to_lower c)"
  unfolding char_class_defs by auto

lemma to_lower_other: "\<not> is_upper c \<Longrightarrow> to_lower c = c"
  unfolding char_class_defs by auto

lemma snake_char_not_upper: "snake_char c \<Longrightarrow> \<not> is_upper c"
  unfolding snake_char_def char_class_defs by auto

lemma underscore_classes:
  "\<not> is_upper (CHR ''_'')" "\<not> is_lower (CHR ''_'')" "\<not> is_digit (CHR ''_'')"
  unfolding char_class_defs by simp_all

lemma to_lower_underscore_iff: "to_lower c = CHR ''_'' \<longleftrightarrow> c = CHR ''_''"
proof (cases "is_upper c")
  case True
  then have "is_lower (to_lower c)" by (rule to_lower_upper)
  with True show ?thesis using underscore_classes by metis
next
  case False
  then show ?thesis by (simp add: to_lower_other)
qed

lemma snake_char_to_lower: "is_alnum c \<or> c = CHR ''_'' \<Longrightarrow> snake_char (to_lower c)"
proof (cases "is_upper c")
  case True
  then show ?thesis by (simp add: snake_char_def to_lower_upper)
next
  case False
  assume "is_alnum c \<or> c = CHR ''_''"
  with False show ?thesis by (auto simp: snake_char_def to_lower_other is_alnum_def)
qed

lemma sub_word_boundary_fix: "\<forall>c \<in> set xs. \<not> is_upper c \<Longrightarrow> sub_word_boundary xs = xs"
  by (induction xs rule: sub_word_boundary.induct) auto

lemma sub_case_boundary_fix: "\<forall>c \<in> set xs. \<not> is_upper c \<Longrightarrow> sub_case_boundary xs = xs"
  by (induction xs rule: sub_case_boundary.induct) auto

lemma sub_non_alnum_fix: "\<forall>c \<in> set xs. snake_char c \<Longrightarrow> sub_non_alnum xs = xs"
  unfolding sub_non_alnum_def
  by (rule map_idI) (auto simp: snake_char_def is_alnum_def)

lemma lower_fix: "\<forall>c \<in> set xs. \<not> is_upper c \<Longrightarrow> lower xs = xs"
  unfolding lower_def by (rule map_idI) (simp add: to_lower_other)

lemma no_double_Cons:
  "no_double (a # xs) \<longleftrightarrow> no_double xs \<and> (xs = [] \<or> a \<noteq> CHR ''_'' \<or> hd xs \<noteq> CHR ''_'')"
  by (cases xs) auto

lemma no_double_append:
  "no_double (xs @ ys) \<longleftrightarrow>
     no_double xs \<and> no_double ys \<and> (xs = [] \<or> ys = [] \<or> last xs \<noteq> CHR ''_'' \<or> hd ys \<noteq> CHR ''_'')"
proof (induction xs)
  case Nil
  then show ?case by simp
next
  case (Cons a xs)
  show ?case
  proof (cases "xs = []")
    case True
    then show ?thesis by (auto simp: no_double_Cons)
  next
    case False
    then have "hd (xs @ ys) = hd xs" by simp
    with False Cons show ?thesis
      by (simp only: append_Cons no_double_Cons [of a]) auto
  qed
qed

lemma no_double_rev: "no_double (rev xs) = no_double xs"
proof (induction xs)
  case Nil
  then show ?case by simp
next
  case (Cons a xs)
  then show ?case
    by (cases "xs = []") (auto simp: no_double_append no_double_Cons [of a] last_rev)
qed

lemma no_double_dropWhile: "no_double xs \<Longrightarrow> no_double (dropWhile P xs)"
proof -
  assume "no_double xs"
  then have "no_double (takeWhile P xs @ dropWhile P xs)" by simp
  then show ?thesis by (simp only: no_double_append)
qed

lemma no_double_strip: "no_double xs \<Longrightarrow> no_double (strip_chars cs xs)"
  by (simp add: strip_chars_def no_double_rev no_double_dropWhile)

lemma no_double_lower: "no_double xs \<Longrightarrow> no_double (lower xs)"
  unfolding lower_def
  by (induction xs rule: no_double.induct) (auto simp: to_lower_underscore_iff)

lemma sub_underscore_runs_Cons: "\<exists>ys. sub_underscore_runs (c # rest) = c # ys"
  by simp

lemma no_double_sub_underscore_runs: "no_double (sub_underscore_runs xs)"
proof (induction xs rule: sub_underscore_runs.induct)
  case 1
  then show ?case by simp
next
  case (2 c rest)
  show ?case
  proof (cases "c = CHR ''_''")
    case True
    define ys where "ys = dropWhile (\<lambda>x. x = CHR ''_'') rest"
    have ih: "no_double (sub_underscore_runs ys)"
      using 2(1) True by (simp add: ys_def)
    have "sub_underscore_runs ys = [] \<or> hd (sub_underscore_runs ys) \<noteq> CHR ''_''"
    proof (cases ys)
      case Nil
      then show ?thesis by simp
    next
      case (Cons y ys')
      then have "y \<noteq> CHR ''_''"
        using hd_dropWhile [of "\<lambda>x. x = CHR ''_''" rest] by (simp add: ys_def)
      moreover obtain zs where "sub_underscore_runs ys = y # zs"
        using sub_underscore_runs_Cons Cons by blast
      ultimately show ?thesis by simp
    qed
    with ih have "no_double (CHR ''_'' # sub_underscore_runs ys)"
      by (auto simp: no_double_Cons)
    with True show ?thesis by (simp add: ys_def)
  next
    case False
    with 2(2) show ?thesis by (simp add: no_double_Cons)
  qed
qed

lemma sub_underscore_runs_fix: "no_double xs \<Longrightarrow> sub_underscore_runs xs = xs"
proof (induction xs rule: sub_underscore_runs.induct)
  case 1
  then show ?case by simp
next
  case (2 c rest)
  from 2(3) have nd: "no_double rest" by (simp add: no_double_Cons)
  show ?case
  proof (cases "c = CHR ''_''")
    case True
    with 2(3) have "rest = [] \<or> hd rest \<noteq> CHR ''_''" by (simp add: no_double_Cons)
    then have "dropWhile (\<lambda>x. x = CHR ''_'') rest = rest" by (cases rest) auto
    with 2(1) True nd show ?thesis by simp
  next
    case False
    with 2(2) nd show ?thesis by simp
  qed
qed

lemma set_sub_underscore_runs: "set (sub_underscore_runs xs) \<subseteq> set xs"
proof (induction xs rule: sub_underscore_runs.induct)
  case 1
  then show ?case by simp
next
  case (2 c rest)
  have "set (dropWhile (\<lambda>x. x = CHR ''_'') rest) \<subseteq> set rest"
    by (auto dest: set_dropWhileD)
  with 2 show ?case by auto
qed

lemma set_strip_chars: "set (strip_chars cs xs) \<subseteq> set xs"
  unfolding strip_chars_def by (auto dest!: set_dropWhileD)

lemma strip_chars_ends:
  "strip_chars cs xs = [] \<or> (hd (strip_chars cs xs) \<notin> set cs \<and> last (strip_chars cs xs) \<notin> set cs)"
proof -
  define p where "p = (\<lambda>c. c \<in> set cs)"
  define ys where "ys = dropWhile p xs"
  define zs where "zs = dropWhile p (rev ys)"
  have out: "strip_chars cs xs = rev zs"
    by (simp add: strip_chars_def zs_def ys_def p_def)
  show ?thesis
  proof (cases "zs = []")
    case True
    then show ?thesis by (simp add: out)
  next
    case False
    then have hz: "\<not> p (hd zs)"
      unfolding zs_def by (rule hd_dropWhile)
    from False have "rev ys \<noteq> []" by (auto simp: zs_def)
    then have ne: "ys \<noteq> []" by simp
    then have hy: "\<not> p (hd ys)"
      unfolding ys_def by (rule hd_dropWhile)
    have "rev ys = takeWhile p (rev ys) @ zs" by (simp add: zs_def)
    then have "last (rev ys) = last zs" using False by (metis last_appendR)
    then have "last zs = hd ys" using ne by (simp add: last_rev)
    with hz hy False show ?thesis
      by (simp add: out p_def last_rev hd_rev)
  qed
qed

lemma strip_chars_fix:
  "xs = [] \<or> (hd xs \<notin> set cs \<and> last xs \<notin> set cs) \<Longrightarrow> strip_chars cs xs = xs"
proof (cases xs)
  case Nil
  then show ?thesis by (simp add: strip_chars_def)
next
  case (Cons a as)
  assume "xs = [] \<or> (hd xs \<notin> set cs \<and> last xs \<notin> set cs)"
  with Cons have h: "a \<notin> set cs" and l: "last xs \<notin> set cs" by auto
  from h Cons have 1: "dropWhile (\<lambda>c. c \<in> set cs) xs = xs" by simp
  from Cons have "rev xs \<noteq> []" by simp
  with l have 2: "dropWhile (\<lambda>c. c \<in> set cs) (rev xs) = rev xs"
    by (cases "rev xs") (auto simp: hd_rev [symmetric])
  show ?thesis by (simp add: strip_chars_def 1 2)
qed

lemma to_snake_case_form: "snake_form (to_snake_case s)"
proof -
  define s3 where "s3 = sub_non_alnum (sub_case_boundary (sub_word_boundary s))"
  define s4 where "s4 = lower (sub_underscore_runs s3)"
  have out: "to_snake_case s = strip_chars ''_'' s4"
    by (simp add: to_snake_case_def s4_def s3_def)
  have "\<forall>c \<in> set s3. is_alnum c \<or> c = CHR ''_''"
    by (auto simp: s3_def sub_non_alnum_def)
  then have "\<forall>c \<in> set (sub_underscore_runs s3). is_alnum c \<or> c = CHR ''_''"
    using set_sub_underscore_runs by blast
  then have "\<forall>c \<in> set s4. snake_char c"
    by (auto simp: s4_def lower_def intro: snake_char_to_lower)
  then have a: "list_all snake_char (strip_chars ''_'' s4)"
    using set_strip_chars [of "''_''" s4] by (auto simp: list_all_iff)
  have "no_double s4"
    by (simp add: s4_def no_double_lower no_double_sub_underscore_runs)
  then have b: "no_double (strip_chars ''_'' s4)"
    by (rule no_double_strip)
  have c: "strip_chars ''_'' s4 = []
      \<or> (hd (strip_chars ''_'' s4) \<noteq> CHR ''_'' \<and> last (strip_chars ''_'' s4) \<noteq> CHR ''_'')"
    using strip_chars_ends [of "''_''" s4] by simp
  from a b c show ?thesis
    by (simp add: snake_form_def out)
qed

lemma to_snake_case_fix: "snake_form s \<Longrightarrow> to_snake_case s = s"
proof -
  assume f: "snake_form s"
  then have sc: "\<forall>c \<in> set s. snake_char c"
    by (simp add: snake_form_def list_all_iff)
  then have nu: "\<forall>c \<in> set s. \<not> is_upper c"
    using snake_char_not_upper by blast
  from f have nd: "no_double s" by (simp add: snake_form_def)
  from f have ends: "s = [] \<or> (hd s \<notin> set ''_'' \<and> last s \<notin> set ''_'')"
    by (auto simp: snake_form_def)
  have "sub_word_boundary s = s" using nu by (rule sub_word_boundary_fix)
  moreover have "sub_case_boundary s = s" using nu by (rule sub_case_boundary_fix)
  moreover have "sub_non_alnum s = s" using sc by (rule sub_non_alnum_fix)
  moreover have "sub_underscore_runs s = s" using nd by (rule sub_underscore_runs_fix)
  moreover have "lower s = s" using nu by (rule lower_fix)
  moreover have "strip_chars ''_'' s = s" using ends by (rule strip_chars_fix)
  ultimately show ?thesis by (simp add: to_snake_case_def)
qed

text \<open>
  Claim C6. The header normalization is idempotent: applying \<open>to_snake_case\<close> to its own
  result gives that result again, for every string.
\<close>

theorem to_snake_case_idempotent: "to_snake_case (to_snake_case s) = to_snake_case s"
  by (rule to_snake_case_fix) (rule to_snake_case_form)

section \<open>clean\_data and its argument\<close>

lemma strip_loop_frame:
  assumes "strip_loop pd cols st c = Inr st'" and "c < length st"
  shows "length st' = length st \<and> (\<forall>r. r \<noteq> c \<longrightarrow> st' ! r = st ! r)
         \<and> columns (st' ! c) = columns (st ! c)"
  using assms
proof (induction cols arbitrary: st)
  case Nil
  then show ?case by simp
next
  case (Cons col cols)
  show ?case
  proof (cases "getitem (st ! c) col")
    case Nil
    with Cons.prems show ?thesis by simp
  next
    case outer: (Cons s rest)
    show ?thesis
    proof (cases rest)
      case Nil
      with outer have g: "getitem (st ! c) col = [s]" by simp
      show ?thesis
      proof (cases "dtype s = Object_dtype")
        case True
        with Cons.prems(1) g obtain s' where s': "str_strip pd s = Inr s'"
          and run: "strip_loop pd cols (st[c := setitem (st ! c) col s']) c = Inr st'"
          by (auto split: sum.splits)
        let ?st1 = "st[c := setitem (st ! c) col s']"
        have c1: "c < length ?st1" using Cons.prems(2) by simp
        from Cons.IH [OF run c1]
        have "length st' = length st" and "\<forall>r. r \<noteq> c \<longrightarrow> st' ! r = st ! r"
          and "columns (st' ! c) = columns (setitem (st ! c) col s')"
          using Cons.prems(2) by auto
        moreover have "columns (setitem (st ! c) col s') = columns (st ! c)"
          using getitem_in_columns [OF g] by (rule columns_setitem)
        ultimately show ?thesis by simp
      next
        case False
        with Cons.prems(1) g have "strip_loop pd cols st c = Inr st'" by simp
        from Cons.IH [OF this Cons.prems(2)] show ?thesis .
      qed
    next
      case (Cons t rest')
      with outer Cons.prems show ?thesis by simp
    qed
  qed
qed

lemma getitem_only:
  assumes "getitem df col = [s]" and "c \<in> set df" and "fst c = col"
  shows "snd c = s"
proof -
  from assms(2,3) have "c \<in> set (filter (\<lambda>(n, s). n = col) df)"
    by (auto simp: split_def)
  then have "snd c \<in> set (getitem df col)"
    by (simp add: getitem_def)
  with assms(1) show ?thesis by simp
qed

lemma length_getitem_setitem:
  "col \<in> set (columns df) \<Longrightarrow> length (getitem (setitem df col v) n) = length (getitem df n)"
proof -
  assume "col \<in> set (columns df)"
  then have "setitem df col v = map (\<lambda>c. if fst c = col then (fst c, v) else c) df"
    by (rule setitem_as_map)
  moreover have "length (filter (\<lambda>(m, s). m = n) (map (\<lambda>c. if fst c = col then (fst c, v) else c) xs))
      = length (filter (\<lambda>(m, s). m = n) xs)" for xs :: frame
    by (induction xs) (auto simp: split_def)
  ultimately show ?thesis
    by (simp add: getitem_def)
qed

lemma strip_loop_columns:
  assumes "strip_loop pd names st c = Inr st'" and "c < length st" and "distinct names"
  shows "list_all2
           (\<lambda>x x'. fst x' = fst x
              \<and> (if fst x \<in> set names \<and> dtype (snd x) = Object_dtype
                 then str_strip pd (snd x) = Inr (snd x') else snd x' = snd x))
           (st ! c) (st' ! c)"
  using assms
proof (induction names arbitrary: st)
  case Nil
  then show ?case by (simp add: list_all2_same)
next
  case (Cons a rest)
  let ?F = "st ! c"
  let ?R = "\<lambda>N x x'. fst x' = fst x
              \<and> (if fst x \<in> set N \<and> dtype (snd x) = Object_dtype
                 then str_strip pd (snd x) = Inr (snd x') else snd x' = snd x)"
  from Cons.prems(3) have a_new: "a \<notin> set rest" and d: "distinct rest" by auto
  from Cons.prems(1) obtain s where g: "getitem ?F a = [s]"
    by (cases "getitem ?F a" rule: remdups_adj.cases) (auto)
  have only: "\<And>x. x \<in> set ?F \<Longrightarrow> fst x = a \<Longrightarrow> snd x = s"
    using getitem_only [OF g] by blast
  show ?case
  proof (cases "dtype s = Object_dtype")
    case True
    with Cons.prems(1) g obtain s1 where s1: "str_strip pd s = Inr s1"
      and run: "strip_loop pd rest (st[c := setitem ?F a s1]) c = Inr st'"
      by (auto split: sum.splits)
    let ?st1 = "st[c := setitem ?F a s1]"
    have c1: "c < length ?st1" using Cons.prems(2) by simp
    have F1: "?st1 ! c = map (\<lambda>x. if fst x = a then (fst x, s1) else x) ?F"
      using Cons.prems(2) setitem_as_map [OF getitem_in_columns [OF g], of s1] by simp
    from Cons.IH [OF run c1 d]
    have "list_all2 (?R rest) (map (\<lambda>x. if fst x = a then (fst x, s1) else x) ?F) (st' ! c)"
      by (simp only: F1)
    then have "list_all2 (\<lambda>x. ?R rest (if fst x = a then (fst x, s1) else x)) ?F (st' ! c)"
      by (simp only: list_all2_map1)
    then show ?thesis
    proof (rule list.rel_mono_strong)
      fix x y
      assume x: "x \<in> set ?F" and r: "?R rest (if fst x = a then (fst x, s1) else x) y"
      show "?R (a # rest) x y"
      proof (cases "fst x = a")
        case True
        with only [OF x] have "snd x = s" by simp
        with True r a_new s1 \<open>dtype s = Object_dtype\<close> show ?thesis
          by (auto split: if_splits)
      next
        case False
        with r show ?thesis by (auto split: if_splits)
      qed
    qed
  next
    case False
    with Cons.prems(1) g have run: "strip_loop pd rest st c = Inr st'" by simp
    from Cons.IH [OF run Cons.prems(2) d]
    have "list_all2 (?R rest) ?F (st' ! c)" .
    then show ?thesis
    proof (rule list.rel_mono_strong)
      fix x y
      assume x: "x \<in> set ?F" and r: "?R rest x y"
      show "?R (a # rest) x y"
      proof (cases "fst x = a")
        case True
        with only [OF x] have "snd x = s" by simp
        with True r a_new False show ?thesis by (auto split: if_splits)
      next
        case False
        with r show ?thesis by (auto split: if_splits)
      qed
    qed
  qed
qed

lemma strip_loop_unique_names:
  assumes "strip_loop pd names st c = Inr st'" and "c < length st"
  shows "\<forall>n \<in> set names. length (getitem (st ! c) n) = 1"
  using assms
proof (induction names arbitrary: st)
  case Nil
  then show ?case by simp
next
  case (Cons a rest)
  let ?F = "st ! c"
  from Cons.prems(1) obtain s where g: "getitem ?F a = [s]"
    by (cases "getitem ?F a" rule: remdups_adj.cases) (auto)
  show ?case
  proof (cases "dtype s = Object_dtype")
    case True
    with Cons.prems(1) g obtain s1 where
      run: "strip_loop pd rest (st[c := setitem ?F a s1]) c = Inr st'"
      by (auto split: sum.splits)
    let ?st1 = "st[c := setitem ?F a s1]"
    have c1: "c < length ?st1" using Cons.prems(2) by simp
    from Cons.IH [OF run c1]
    have "\<forall>n \<in> set rest. length (getitem (setitem ?F a s1) n) = 1"
      using Cons.prems(2) by simp
    then have "\<forall>n \<in> set rest. length (getitem ?F n) = 1"
      by (simp add: length_getitem_setitem [OF getitem_in_columns [OF g]])
    with g show ?thesis by simp
  next
    case False
    with Cons.prems(1) g have run: "strip_loop pd rest st c = Inr st'" by simp
    from Cons.IH [OF run Cons.prems(2)] g show ?thesis by simp
  qed
qed

lemma distinct_selected_names:
  "(\<And>n. n \<in> set (map fst (filter P df)) \<Longrightarrow> length (filter (\<lambda>x. fst x = n) df) \<le> 1)
     \<Longrightarrow> distinct (map fst (filter P df))"
proof (induction df)
  case Nil
  show ?case by simp
next
  case (Cons x df)
  have sub: "length (filter (\<lambda>y. fst y = n) df) \<le> 1" if "n \<in> set (map fst (filter P df))" for n
  proof -
    from that have "n \<in> set (map fst (filter P (x # df)))" by auto
    from Cons.prems [OF this] show ?thesis by (simp split: if_splits)
  qed
  have ih: "distinct (map fst (filter P df))"
    by (rule Cons.IH) (rule sub)
  show ?case
  proof (cases "P x")
    case False
    with ih show ?thesis by simp
  next
    case True
    have "fst x \<notin> set (map fst (filter P df))"
    proof
      assume "fst x \<in> set (map fst (filter P df))"
      then obtain y where y: "y \<in> set df" "fst y = fst x" by auto
      have "fst x \<in> set (map fst (filter P (x # df)))" using True by simp
      from Cons.prems [OF this] have "filter (\<lambda>y. fst y = fst x) df = []" by simp
      with y show False by (auto simp: filter_empty_conv)
    qed
    with ih True show ?thesis by simp
  qed
qed

lemma set_columns_snake:
  "set_columns df (map to_snake_case (columns df)) = map (\<lambda>c. (to_snake_case (fst c), snd c)) df"
  by (simp add: set_columns_def columns_def zip_map1 zip_map2 zip_same_conv_map)

lemma strip_loop_object_columns:
  assumes "strip_loop pd (select_object_columns (st ! c)) st c = Inr st'" and "c < length st"
  shows "list_all2
           (\<lambda>x x'. fst x' = fst x
              \<and> (if dtype (snd x) = Object_dtype then str_strip pd (snd x) = Inr (snd x')
                 else snd x' = snd x))
           (st ! c) (st' ! c)"
proof -
  let ?F = "st ! c"
  let ?names = "select_object_columns ?F"
  have names: "?names = map fst (filter (\<lambda>x. dtype (snd x) = Object_dtype) ?F)"
    by (simp add: select_object_columns_def split_def)
  have one: "\<forall>n \<in> set ?names. length (getitem ?F n) = 1"
    using assms by (rule strip_loop_unique_names)
  have "distinct (map fst (filter (\<lambda>x. dtype (snd x) = Object_dtype) ?F))"
  proof (rule distinct_selected_names)
    fix n assume "n \<in> set (map fst (filter (\<lambda>x. dtype (snd x) = Object_dtype) ?F))"
    then have "n \<in> set ?names" by (simp only: names)
    with one have "length (getitem ?F n) = 1" by (rule bspec)
    then show "length (filter (\<lambda>x. fst x = n) ?F) \<le> 1"
      by (simp add: getitem_def split_def)
  qed
  then have d: "distinct ?names" by (simp only: names)
  from strip_loop_columns [OF assms d]
  show ?thesis
  proof (rule list.rel_mono_strong)
    fix x y
    assume x: "x \<in> set ?F"
      and r: "fst y = fst x
              \<and> (if fst x \<in> set ?names \<and> dtype (snd x) = Object_dtype
                 then str_strip pd (snd x) = Inr (snd y) else snd y = snd x)"
    have "fst x \<in> set ?names" if "dtype (snd x) = Object_dtype"
      using that x by (auto simp: names)
    with r show "fst y = fst x
              \<and> (if dtype (snd x) = Object_dtype then str_strip pd (snd x) = Inr (snd y)
                 else snd y = snd x)"
      by (auto split: if_splits)
  qed
qed

text \<open>
  Claim C7, as amended. \<open>clean_data\<close> does not change the Dataset passed to it: when it
  returns, the caller's object and every other object of the store are as they were, and
  the result is a new object. That object is the \<open>fillna\<close> of a frame that has the
  caller's columns in order, each header in snake case and each column of dtype
  \<open>object\<close> replaced by its \<open>str.strip()\<close>, the other columns as they are.
\<close>

theorem clean_data_leaves_argument_unchanged:
  assumes "df < length st" and "clean_data pd st df = Inr (st', out)"
  shows "st' ! df = st ! df \<and> take (length st) st' = st
         \<and> out \<noteq> df \<and> length st \<le> out \<and> out < length st'
         \<and> (\<exists>cleaned. list_all2 (stripped_column pd) (st ! df) cleaned
                \<and> fillna pd [] cleaned = Inr (st' ! out))"
proof -
  let ?c = "length st"
  let ?st1 = "st @ [st ! df]"
  let ?F2 = "set_columns (st ! df) (map to_snake_case (columns (st ! df)))"
  let ?st2 = "?st1[?c := ?F2]"
  have F2: "?st2 ! ?c = ?F2" by simp
  from assms(2) obtain st3 filled where
    strip: "strip_loop pd (select_object_columns (?st2 ! ?c)) ?st2 ?c = Inr st3"
    and fill: "fillna pd [] (st3 ! ?c) = Inr filled"
    and res: "st' = st3 @ [filled]" "out = length st3"
    by (auto simp: clean_data_def alloc_def split: sum.splits)
  have c2: "?c < length ?st2" by simp
  from strip_loop_frame [OF strip c2]
  have len3: "length st3 = Suc (length st)"
    and other: "\<And>r. r \<noteq> ?c \<Longrightarrow> st3 ! r = ?st2 ! r"
    by auto
  have old: "st3 ! r = st ! r" if "r < length st" for r
    using that other [of r] by (simp add: nth_append)
  have same: "st' ! df = st ! df"
    using assms(1) old [of df] by (simp add: res nth_append len3)
  have keep: "take (length st) st' = st"
  proof (rule nth_equalityI)
    show "length (take (length st) st') = length st"
      by (simp add: res len3)
  next
    fix i assume "i < length (take (length st) st')"
    then have i: "i < length st" by simp
    then show "take (length st) st' ! i = st ! i"
      using old [of i] by (simp add: res nth_append len3)
  qed
  have out: "out \<noteq> df" "length st \<le> out" "out < length st'"
    using assms(1) by (simp_all add: res len3)
  from strip_loop_object_columns [OF strip c2]
  have "list_all2
           (\<lambda>x x'. fst x' = fst x
              \<and> (if dtype (snd x) = Object_dtype then str_strip pd (snd x) = Inr (snd x')
                 else snd x' = snd x))
           ?F2 (st3 ! ?c)"
    by (simp only: F2)
  then have "list_all2
           (\<lambda>x x'. fst x' = fst x
              \<and> (if dtype (snd x) = Object_dtype then str_strip pd (snd x) = Inr (snd x')
                 else snd x' = snd x))
           (map (\<lambda>c. (to_snake_case (fst c), snd c)) (st ! df)) (st3 ! ?c)"
    by (simp only: set_columns_snake)
  then have rel: "list_all2 (stripped_column pd) (st ! df) (st3 ! ?c)"
    unfolding list_all2_map1
  proof (rule list_all2_mono)
    fix x y
    assume "fst y = fst (to_snake_case (fst x), snd x)
              \<and> (if dtype (snd (to_snake_case (fst x), snd x)) = Object_dtype
                 then str_strip pd (snd (to_snake_case (fst x), snd x)) = Inr (snd y)
                 else snd y = snd (to_snake_case (fst x), snd x))"
    then show "stripped_column pd x y"
      by (auto simp: stripped_column_def split: if_splits)
  qed
  have "st' ! out = filled"
    by (simp add: res)
  with fill rel have "\<exists>cleaned. list_all2 (stripped_column pd) (st ! df) cleaned
      \<and> fillna pd [] cleaned = Inr (st' ! out)"
    by (intro exI [of _ "st3 ! ?c"]) simp
  with same keep out show ?thesis by simp
qed

lemmas clean_data_eval =
  clean_data_def alloc_def set_columns_def columns_def select_object_columns_def getitem_def
  setitem_def pandas_sample_def strip_cell_def fill_cell_def strip_chars_def whitespace_def
  to_snake_case_def lower_def sub_non_alnum_def char_class_defs

text \<open>
  Claim C7 as stated fails. After cleaning a frame with the header \<open>First Name\<close>, a padded
  string and a null, the caller's object, at reference 0, still has the old header, the
  padding and the null; the cleaned frame is the new object at reference 2.
\<close>

theorem clean_data_returns_a_copy:
  "clean_data pandas_sample
     [[(''First Name'', \<lparr>dtype = Object_dtype, vals = [Str '' Al '', Null]\<rparr>)]] 0
   = Inr ([[(''First Name'', \<lparr>dtype = Object_dtype, vals = [Str '' Al '', Null]\<rparr>)],
           [(''first_name'', \<lparr>dtype = Object_dtype, vals = [Str ''Al'', Null]\<rparr>)],
           [(''first_name'', \<lparr>dtype = Object_dtype, vals = [Str ''Al'', Str '''']\<rparr>)]], 2)"
  by (simp add: clean_data_eval)

text \<open>The same call, with the caller's frame read back through the theorem.\<close>

theorem clean_data_leaves_argument_unchanged_witness:
  "(0::nat) < length [[(''First Name'', \<lparr>dtype = Object_dtype, vals = [Str '' Al '', Null]\<rparr>)]]
   \<and> (case clean_data pandas_sample
              [[(''First Name'', \<lparr>dtype = Object_dtype, vals = [Str '' Al '', Null]\<rparr>)]] 0 of
         Inl e \<Rightarrow> False
       | Inr (st', out) \<Rightarrow>
           st' ! 0 = [(''First Name'', \<lparr>dtype = Object_dtype, vals = [Str '' Al '', Null]\<rparr>)]
           \<and> out = 2
           \<and> st' ! out = [(''first_name'', \<lparr>dtype = Object_dtype, vals = [Str ''Al'', Str '''']\<rparr>)])"
proof -
  let ?st = "[[(''First Name'', \<lparr>dtype = Object_dtype, vals = [Str '' Al '', Null]\<rparr>)]]"
  obtain st' out where run: "clean_data pandas_sample ?st 0 = Inr (st', out)"
    and out: "out = 2"
    and new: "st' ! out = [(''first_name'', \<lparr>dtype = Object_dtype, vals = [Str ''Al'', Str '''']\<rparr>)]"
    by (simp add: clean_data_eval)
  have l: "(0::nat) < length ?st" by simp
  from clean_data_leaves_argument_unchanged [OF l run]
  have "st' ! 0 = ?st ! 0" by simp
  with run out new l show ?thesis by simp
qed

section \<open>Lead-source normalization\<close>

lemma normalize_value_string:
  assumes "keys a2c \<noteq> []"
  shows "\<exists>r. normalize_value fz a2c meta (Str val) = Inr (Str (normalized_to r), meta @ [r])
             \<and> original_value r = val"
proof -
  obtain m s where b: "best_match_score val (keys a2c) (token_ratio fz) = Inr (m, s)"
    using best_match_score_nonempty [OF assms, of val "token_ratio fz"] by auto
  have "m \<in> set (keys a2c)"
    using best_match_score_best [OF b] by simp
  then obtain canonical where c: "dict_get a2c m = Some canonical"
    using dict_get_keys [of m a2c] by auto
  show ?thesis
  proof (cases "s \<ge> 85")
    case True
    let ?r = "\<lparr>original_value = val, normalized_to = canonical, value_score = s\<rparr>"
    have "normalize_value fz a2c meta (Str val) = Inr (Str (normalized_to ?r), meta @ [?r])"
      using True by (simp add: b c)
    then show ?thesis by (intro exI [of _ ?r]) simp
  next
    case False
    let ?r = "\<lparr>original_value = val, normalized_to = val, value_score = s\<rparr>"
    have "normalize_value fz a2c meta (Str val) = Inr (Str (normalized_to ?r), meta @ [?r])"
      using False by (simp add: b)
    then show ?thesis by (intro exI [of _ ?r]) simp
  qed
qed

lemma unchanged_unless_string_simps:
  "unchanged_unless_string Null v' \<longleftrightarrow> v' = Null"
  "unchanged_unless_string (Num n) v' \<longleftrightarrow> v' = Num n"
  "unchanged_unless_string (Str s) v'"
  by (simp_all add: unchanged_unless_string_def)

lemma apply_normalize_value_records:
  assumes "keys a2c \<noteq> []"
  shows "\<exists>out rs. apply_normalize_value fz a2c vs meta = Inr (out, meta @ rs)
           \<and> length out = length vs
           \<and> map original_value rs = strings_of vs
           \<and> strings_of out = map normalized_to rs
           \<and> list_all2 unchanged_unless_string vs out"
proof (induction vs arbitrary: meta)
  case Nil
  show ?case by simp
next
  case (Cons v vs)
  show ?case
  proof (cases v)
    case Null
    obtain out rs where ih: "apply_normalize_value fz a2c vs meta = Inr (out, meta @ rs)"
      "length out = length vs" "map original_value rs = strings_of vs"
      "strings_of out = map normalized_to rs" "list_all2 unchanged_unless_string vs out"
      using Cons.IH [of meta] by auto
    then show ?thesis
      by (intro exI [of _ "Null # out"] exI [of _ rs])
         (simp add: Null unchanged_unless_string_simps)
  next
    case (Num n)
    obtain out rs where ih: "apply_normalize_value fz a2c vs meta = Inr (out, meta @ rs)"
      "length out = length vs" "map original_value rs = strings_of vs"
      "strings_of out = map normalized_to rs" "list_all2 unchanged_unless_string vs out"
      using Cons.IH [of meta] by auto
    then show ?thesis
      by (intro exI [of _ "Num n # out"] exI [of _ rs])
         (simp add: Num unchanged_unless_string_simps)
  next
    case (Str val)
    obtain r where r: "normalize_value fz a2c meta (Str val)
        = Inr (Str (normalized_to r), meta @ [r])" "original_value r = val"
      using normalize_value_string [OF assms, of fz meta val] by auto
    obtain out rs where ih:
      "apply_normalize_value fz a2c vs (meta @ [r]) = Inr (out, (meta @ [r]) @ rs)"
      "length out = length vs" "map original_value rs = strings_of vs"
      "strings_of out = map normalized_to rs" "list_all2 unchanged_unless_string vs out"
      using Cons.IH [of "meta @ [r]"] by auto
    have "apply_normalize_value fz a2c (v # vs) meta
        = Inr (Str (normalized_to r) # out, meta @ (r # rs))"
      using ih(1) by (simp add: Str r(1) del: normalize_value.simps)
    with ih(2-5) r(2) show ?thesis
      by (intro exI [of _ "Str (normalized_to r) # out"] exI [of _ "r # rs"])
         (simp add: Str unchanged_unless_string_simps)
  qed
qed

text \<open>
  Claim C4, as amended. Value normalization handles each value on its own and always
  returns: the replacement column has the length and order of the input, a null or a
  non-string value passes through unchanged and is not recorded, and there is one
  normalization record per string value, in order, whose \<open>normalized_to\<close> is the string
  put in its place.
\<close>

theorem one_record_per_string_value:
  "\<exists>out meta.
     apply_normalize_value fz (build_alias_to_canonical LEAD_SOURCES) vs [] = Inr (out, meta)
     \<and> length out = length vs
     \<and> list_all2 unchanged_unless_string vs out
     \<and> map original_value meta = strings_of vs
     \<and> strings_of out = map normalized_to meta"
  using apply_normalize_value_records [OF LEAD_SOURCES_keys, of fz vs "[]"]
  by auto

lemmas normalize_eval =
  build_alias_to_canonical_def add_entry_def LEAD_SOURCES_def keys_def
  dict_get_def best_match_score_def extractOne_def token_ratio_def fuzz_sample_def

text \<open>
  Claim C4 as stated fails: a column of a null, a number and a string gives one record,
  for the string, not three.
\<close>

theorem nulls_and_numbers_not_recorded:
  "apply_normalize_value fuzz_sample (build_alias_to_canonical LEAD_SOURCES)
      [Null, Num 7, Str ''Walk In''] []
   = Inr ([Null, Num 7, Str ''WalkIn''],
          [\<lparr>original_value = ''Walk In'', normalized_to = ''WalkIn'', value_score = 100\<rparr>])"
  by (simp add: normalize_eval)

lemma find_lead_source_col_found:
  assumes "find_lead_source_col cols = Some col"
  shows "col \<in> set cols \<and> col \<noteq> []"
proof -
  from assms obtain i where "i < length cols" "cols ! i = col"
    and m: "replace_space (lower col) \<in> set (map (\<lambda>n. replace_space (lower n)) possible_names)"
    by (auto simp: find_lead_source_col_def find_Some_iff)
  then have "col \<in> set cols" by auto
  moreover have "col \<noteq> []"
  proof
    assume "col = []"
    with m show False
      by (simp add: replace_space_def lower_def possible_names_def)
  qed
  ultimately show ?thesis by simp
qed

text \<open>
  Claim C9. The result of \<open>normalize_lead_sources\<close> has two shapes. When no header is
  recognised as the lead-source column it is the frame alone, the store untouched and no
  record made; otherwise it is the pair of the frame and the normalization records.
\<close>

theorem lead_source_result_shape:
  assumes "df < length st" and "distinct (columns (st ! df))"
  shows "if find_lead_source_col (columns (st ! df)) = None
         then normalize_lead_sources fz st df = Inr (st, Frame_only df)
         else \<exists>st' meta. normalize_lead_sources fz st df = Inr (st', Frame_and_meta df meta)
                \<and> length st' = length st"
proof (cases "find_lead_source_col (columns (st ! df))")
  case None
  then show ?thesis by (simp add: normalize_lead_sources_def)
next
  case (Some col)
  from find_lead_source_col_found [OF Some]
  have mem: "col \<in> set (columns (st ! df))" and ne: "col \<noteq> []" by auto
  obtain s where g: "getitem (st ! df) col = [s]"
    using getitem_distinct [OF assms(2) mem] by auto
  obtain out meta where run:
    "apply_normalize_value fz (build_alias_to_canonical LEAD_SOURCES) (vals s) [] = Inr (out, meta)"
    using apply_normalize_value_records [OF LEAD_SOURCES_keys, of fz "vals s" "[]"] by auto
  have "normalize_lead_sources fz st df =
      Inr (st[df := setitem (st ! df) col (s\<lparr>vals := out\<rparr>)], Frame_and_meta df meta)"
    by (simp add: normalize_lead_sources_def Some ne g run)
  then have "\<exists>st' meta. normalize_lead_sources fz st df = Inr (st', Frame_and_meta df meta)
                \<and> length st' = length st"
    by (intro exI [of _ "st[df := setitem (st ! df) col (s\<lparr>vals := out\<rparr>)]"] exI [of _ meta]) simp
  with Some show ?thesis by simp
qed

lemmas lead_source_eval =
  normalize_lead_sources_def find_lead_source_col_def possible_names_def replace_space_def
  lower_def to_lower_def ascii_uppercase_def ascii_lowercase_def columns_def getitem_def
  setitem_def normalize_eval

text \<open>A frame without a lead-source column, and one with the header \<open>Lead Source\<close>.\<close>

theorem lead_source_result_shape_witness:
  "normalize_lead_sources fuzz_sample
      [[(''vin'', \<lparr>dtype = Object_dtype, vals = [Str ''1A'']\<rparr>)]] 0
     = Inr ([[(''vin'', \<lparr>dtype = Object_dtype, vals = [Str ''1A'']\<rparr>)]], Frame_only 0)
   \<and> normalize_lead_sources fuzz_sample
      [[(''Lead Source'', \<lparr>dtype = Object_dtype, vals = [Str ''FB'', Null]\<rparr>)]] 0
     = Inr ([[(''Lead Source'', \<lparr>dtype = Object_dtype, vals = [Str ''Facebook'', Null]\<rparr>)]],
            Frame_and_meta 0
              [\<lparr>original_value = ''FB'', normalized_to = ''Facebook'', value_score = 100\<rparr>])"
proof -
  let ?a = "[[(''vin'', \<lparr>dtype = Object_dtype, vals = [Str ''1A'']\<rparr>)]]"
  let ?b = "[[(''Lead Source'', \<lparr>dtype = Object_dtype, vals = [Str ''FB'', Null]\<rparr>)]]"
  have la: "0 < length ?a" and lb: "0 < length ?b" by simp_all
  have da: "distinct (columns (?a ! 0))" and db: "distinct (columns (?b ! 0))"
    by (simp_all add: columns_def)
  have na: "find_lead_source_col (columns (?a ! 0)) = None"
    by (simp add: lead_source_eval)
  from lead_source_result_shape [OF la da, of fuzz_sample] na
  have a: "normalize_lead_sources fuzz_sample ?a 0 = Inr (?a, Frame_only 0)"
    by simp
  have nb: "find_lead_source_col (columns (?b ! 0)) \<noteq> None"
    by (simp add: lead_source_eval)
  from lead_source_result_shape [OF lb db, of fuzz_sample] nb
  obtain st' meta where "normalize_lead_sources fuzz_sample ?b 0 = Inr (st', Frame_and_meta 0 meta)"
    by auto
  moreover have "normalize_lead_sources fuzz_sample ?b 0
     = Inr ([[(''Lead Source'', \<lparr>dtype = Object_dtype, vals = [Str ''Facebook'', Null]\<rparr>)]],
            Frame_and_meta 0
              [\<lparr>original_value = ''FB'', normalized_to = ''Facebook'', value_score = 100\<rparr>])"
    by (simp add: lead_source_eval)
  ultimately show ?thesis using a by simp
qed

end
